theory Spec2Isabelle
  imports Main
begin

section \<open>The vote server of \<open>src/server.js\<close>\<close>

text \<open>
  The class \<open>VoteServer\<close> keeps four containers (\<open>clients\<close>, \<open>votes\<close>,
  \<open>votedClients\<close>, \<open>candidates\<close>) and reacts to WebSocket events. Every method
  is embedded as a function on an explicit state; a method that can raise returns a
  sum, \<open>Inl\<close> carrying the JavaScript exception. Logging (\<open>console.log\<close>,
  \<open>console.error\<close>) is left out: it has no effect on the state or on the wire.
\<close>

subsection \<open>JavaScript values\<close>

type_synonym client_id = string

text \<open>A WebSocket object is a reference; its mutable \<open>readyState\<close> lives in the
  environment (\<open>net\<close> below).\<close>

type_synonym ws_ref = nat

datatype ready_state = CONNECTING | OPEN | CLOSING | CLOSED

text \<open>What the transport does to a socket: its \<open>readyState\<close>, and whether
  \<open>ws.send\<close> raises when called.\<close>

record socket =
  readyState :: ready_state
  sendThrows :: bool

text \<open>
  A vote count is a JavaScript number. Counts start at 0 and grow by 1, so they are
  naturals (the embedding does not model the loss of integer precision of a double at
  \<open>2^53\<close>); \<open>undefined + 1\<close> is \<open>NaN\<close>.
\<close>

datatype jsnum = Num nat | NaN

datatype js_exn = TypeError | SyntaxError

text \<open>The values \<open>JSON.parse\<close> can return. The server never looks inside a number,
  so its payload is kept as an integer.\<close>

datatype json =
    JNull
  | JBool bool
  | JNumber int
  | JString string
  | JArray "json list"
  | JObject "(string \<times> json) list"

text \<open>
  \<open>JSON.parse\<close> is library code: an inbound frame is represented by what the parser
  does with it, a \<open>SyntaxError\<close> or a value.
\<close>

datatype frame = Unparsable | Parsed json

definition JSON_parse :: "frame \<Rightarrow> js_exn + json" where
  "JSON_parse data = (case data of Unparsable \<Rightarrow> Inl SyntaxError | Parsed v \<Rightarrow> Inr v)"

text \<open>
  Reading the property \<open>type\<close> or \<open>candidate\<close> of a parsed value (\<open>message.type\<close>,
  \<open>const { candidate } = message\<close>): \<open>null\<close> raises a \<open>TypeError\<close>; an object
  yields its own property, the last one when the text repeated the key; every other
  value, and an object without the key, yields \<open>undefined\<close> (\<open>None\<close>), since no
  prototype defines these two names.
\<close>

fun js_prop :: "json \<Rightarrow> string \<Rightarrow> js_exn + json option" where
  "js_prop JNull k = Inl TypeError"
| "js_prop (JObject kvs) k = Inr (map_of (rev kvs) k)"
| "js_prop v k = Inr None"

text \<open>\<open>Array.prototype.includes\<close> on a list of strings: only an equal string is found.\<close>

fun Array_includes :: "string list \<Rightarrow> json option \<Rightarrow> bool" where
  "Array_includes cs (Some (JString c)) = (c \<in> set cs)"
| "Array_includes cs v = False"

text \<open>
  The log line of \<open>handleMessage\<close> interpolates \<open>message.type\<close> into a template
  literal, which converts the value to a string. The conversion raises a \<open>TypeError\<close>
  for an object with an own property \<open>toString\<close>: a parsed value is never callable,
  and \<open>Object.prototype.valueOf\<close> returns the object itself. Any other object
  converts to \<open>[object Object]\<close>; an array joins the conversions of its elements
  (\<open>null\<close> gives the empty string); \<open>undefined\<close> and the primitives convert.
  Only whether the conversion raises matters: the string is logged.
\<close>

fun ToString_throws :: "json \<Rightarrow> bool" where
  "ToString_throws (JObject kvs) = (''toString'' \<in> set (map fst kvs))"
| "ToString_throws (JArray xs) = (\<exists>x \<in> set xs. ToString_throws x)"
| "ToString_throws v = False"

definition interpolation_throws :: "json option \<Rightarrow> bool" where
  "interpolation_throws t = (case t of None \<Rightarrow> False | Some v \<Rightarrow> ToString_throws v)"

subsection \<open>\<open>Map\<close> and \<open>Set\<close>\<close>

text \<open>
  A JavaScript \<open>Map\<close> iterates in insertion order and \<open>set\<close> on a present key keeps
  the key's position: an association list with distinct keys.
\<close>

primrec Map_set :: "'k \<Rightarrow> 'v \<Rightarrow> ('k \<times> 'v) list \<Rightarrow> ('k \<times> 'v) list" where
  "Map_set k v [] = [(k, v)]"
| "Map_set k v (p # ps) = (if fst p = k then (k, v) # ps else p # Map_set k v ps)"

definition Map_get :: "('k \<times> 'v) list \<Rightarrow> 'k \<Rightarrow> 'v option" where
  "Map_get m k = map_of m k"

definition Map_delete :: "'k \<Rightarrow> ('k \<times> 'v) list \<Rightarrow> ('k \<times> 'v) list" where
  "Map_delete k m = filter (\<lambda>p. fst p \<noteq> k) m"

definition Set_has :: "'a list \<Rightarrow> 'a \<Rightarrow> bool" where
  "Set_has xs x = (x \<in> set xs)"

definition Set_add :: "'a \<Rightarrow> 'a list \<Rightarrow> 'a list" where
  "Set_add x xs = (if x \<in> set xs then xs else xs @ [x])"

definition Set_delete :: "'a \<Rightarrow> 'a list \<Rightarrow> 'a list" where
  "Set_delete x xs = removeAll x xs"

definition Set_size :: "'a list \<Rightarrow> nat" where
  "Set_size xs = length xs"

subsection \<open>Messages and state\<close>

type_synonym tally = "(string \<times> jsnum) list"

datatype server_msg =
    Welcome client_id "string list" tally
  | VoteConfirmed string
  | TallyUpdate tally nat
  | ErrorMsg string

text \<open>One call of \<open>sendToClient\<close>: the socket, the message, and the call's result
  (\<open>True\<close> iff \<open>ws.send\<close> ran and returned).\<close>

type_synonym send_call = "ws_ref \<times> server_msg \<times> bool"

text \<open>
  The fields of \<open>this\<close>, followed by the environment: \<open>net\<close> gives every socket's
  transport state and \<open>sendLog\<close> records the calls of \<open>sendToClient\<close> in order.
\<close>

record server =
  port :: nat
  clients :: "(client_id \<times> ws_ref) list"
  votes :: "(string \<times> jsnum) list"
  votedClients :: "client_id list"
  candidates :: "string list"
  net :: "ws_ref \<Rightarrow> socket"
  sendLog :: "send_call list"

subsection \<open>The methods\<close>

text \<open>\<open>sendToClient(ws, message)\<close>; \<open>ws\<close> may be \<open>undefined\<close> (the result of
  \<open>clients.get\<close>), and then reading \<open>ws.readyState\<close> raises.\<close>

definition sendToClient :: "ws_ref option \<Rightarrow> server_msg \<Rightarrow> server \<Rightarrow> (js_exn + bool) \<times> server" where
  "sendToClient wso message s =
     (case wso of
        None \<Rightarrow> (Inl TypeError, s)
      | Some ws \<Rightarrow>
          if readyState (net s ws) = OPEN then
            (if sendThrows (net s ws)
             then (Inr False, s\<lparr>sendLog := sendLog s @ [(ws, message, False)]\<rparr>)
             else (Inr True, s\<lparr>sendLog := sendLog s @ [(ws, message, True)]\<rparr>))
          else (Inr False, s\<lparr>sendLog := sendLog s @ [(ws, message, False)]\<rparr>))"

definition getTally :: "server \<Rightarrow> tally" where
  "getTally s = map (\<lambda>(candidate, n). (candidate, n)) (votes s)"

text \<open>The \<open>forEach\<close> of \<open>broadcastTally\<close>, with its counter \<open>connectedClients\<close>.\<close>

fun broadcast_each :: "(client_id \<times> ws_ref) list \<Rightarrow> server_msg \<Rightarrow> nat \<Rightarrow> server \<Rightarrow> nat \<times> server" where
  "broadcast_each [] tallyMessage connectedClients s = (connectedClients, s)"
| "broadcast_each ((clientId, ws) # rest) tallyMessage connectedClients s =
     (case sendToClient (Some ws) tallyMessage s of
        (Inr True, s') \<Rightarrow> broadcast_each rest tallyMessage (connectedClients + 1) s'
      | (_, s') \<Rightarrow> broadcast_each rest tallyMessage connectedClients s')"

definition broadcastTally :: "server \<Rightarrow> server" where
  "broadcastTally s =
     (let tallyMessage = TallyUpdate (getTally s) (Set_size (votedClients s))
      in snd (broadcast_each (clients s) tallyMessage 0 s))"

definition sendTallyToClient :: "client_id \<Rightarrow> server \<Rightarrow> (js_exn + unit) \<times> server" where
  "sendTallyToClient clientId s =
     (case Map_get (clients s) clientId of
        None \<Rightarrow> (Inr (), s)
      | Some ws \<Rightarrow>
          (case sendToClient (Some ws)
                  (TallyUpdate (getTally s) (Set_size (votedClients s))) s of
             (Inl e, s') \<Rightarrow> (Inl e, s')
           | (Inr _, s') \<Rightarrow> (Inr (), s')))"

text \<open>\<open>this.votes.get(candidate) + 1\<close>.\<close>

fun js_plus1 :: "jsnum option \<Rightarrow> jsnum" where
  "js_plus1 (Some (Num n)) = Num (n + 1)"
| "js_plus1 v = NaN"

text \<open>A statement \<open>this.sendToClient(...)\<close> whose result is dropped.\<close>

definition send_stmt :: "ws_ref option \<Rightarrow> server_msg \<Rightarrow> server \<Rightarrow> (js_exn + unit) \<times> server" where
  "send_stmt wso message s =
     (case sendToClient wso message s of
        (Inl e, s') \<Rightarrow> (Inl e, s')
      | (Inr _, s') \<Rightarrow> (Inr (), s'))"

text \<open>
  \<open>handleVote\<close>. Once \<open>candidates.includes\<close> has answered \<open>true\<close> the candidate is a string
  of the list, which is the only case that reaches the recording of the vote.
\<close>

definition handleVote :: "client_id \<Rightarrow> json \<Rightarrow> server \<Rightarrow> (js_exn + unit) \<times> server" where
  "handleVote clientId message s =
     (if Set_has (votedClients s) clientId then
        send_stmt (Map_get (clients s) clientId) (ErrorMsg ''You have already voted!'') s
      else
        case js_prop message ''candidate'' of
          Inl e \<Rightarrow> (Inl e, s)
        | Inr candidate \<Rightarrow>
            if \<not> Array_includes (candidates s) candidate then
              send_stmt (Map_get (clients s) clientId) (ErrorMsg ''Invalid candidate selected!'') s
            else
              (case candidate of
                 Some (JString c) \<Rightarrow>
                   let s1 = s\<lparr>votes := Map_set c (js_plus1 (Map_get (votes s) c)) (votes s)\<rparr>;
                       s2 = s1\<lparr>votedClients := Set_add clientId (votedClients s1)\<rparr>
                   in (case send_stmt (Map_get (clients s2) clientId) (VoteConfirmed c) s2 of
                         (Inl e, s3) \<Rightarrow> (Inl e, s3)
                       | (Inr _, s3) \<Rightarrow> (Inr (), broadcastTally s3))
               | _ \<Rightarrow> (Inr (), s)))"

text \<open>\<open>handleMessage\<close>: the log line first (reading \<open>message.type\<close>, then converting
  it to a string), then the \<open>switch\<close>.\<close>

definition handleMessage :: "client_id \<Rightarrow> json \<Rightarrow> server \<Rightarrow> (js_exn + unit) \<times> server" where
  "handleMessage clientId message s =
     (case js_prop message ''type'' of
        Inl e \<Rightarrow> (Inl e, s)
      | Inr t \<Rightarrow>
          if interpolation_throws t then (Inl TypeError, s)
          else if t = Some (JString ''vote'') then handleVote clientId message s
          else if t = Some (JString ''request_tally'') then sendTallyToClient clientId s
          else send_stmt (Map_get (clients s) clientId) (ErrorMsg ''Unknown message type'') s)"

definition initializeCandidates :: "server \<Rightarrow> (js_exn + unit) \<times> server" where
  "initializeCandidates s =
     (Inr (), s\<lparr>votes := fold (\<lambda>candidate vs. Map_set candidate (Num 0) vs) (candidates s) (votes s)\<rparr>)"

text \<open>\<open>setupServer\<close>: fresh containers, the fixed candidate list, the counts set to 0.
  Opening the listening socket and registering the handlers change none of the
  fields.\<close>

definition setupServer :: "server \<Rightarrow> server" where
  "setupServer s =
     snd (initializeCandidates
       (s\<lparr>clients := [], votes := [], votedClients := [],
          candidates := [''Candidate A'', ''Candidate B'', ''Candidate C'']\<rparr>))"

text \<open>\<open>new VoteServer(port)\<close>, in an environment \<open>env\<close> of sockets.\<close>

definition VoteServer :: "nat \<Rightarrow> (ws_ref \<Rightarrow> socket) \<Rightarrow> server" where
  "VoteServer p env =
     setupServer \<lparr>port = p, clients = [], votes = [], votedClients = [], candidates = [],
                  net = env, sendLog = []\<rparr>"

subsection \<open>The event handlers\<close>

text \<open>The server's \<open>error\<close> event; the flag says whether the code is \<open>EADDRINUSE\<close>.\<close>

definition on_error :: "bool \<Rightarrow> server \<Rightarrow> server" where
  "on_error eaddrinuse s = (if eaddrinuse then setupServer (s\<lparr>port := port s + 1\<rparr>) else s)"

text \<open>\<open>connection\<close>: \<open>clientId\<close> is the identifier \<open>uuidv4()\<close> returned.\<close>

definition on_connection :: "client_id \<Rightarrow> ws_ref \<Rightarrow> server \<Rightarrow> server" where
  "on_connection clientId ws s =
     (let s1 = s\<lparr>clients := Map_set clientId ws (clients s)\<rparr>
      in snd (sendToClient (Some ws) (Welcome clientId (candidates s1) (getTally s1)) s1))"

text \<open>\<open>message\<close>, in the closure of \<open>clientId\<close> and \<open>ws\<close>: whatever \<open>JSON.parse\<close> or
  \<open>handleMessage\<close> raises is caught and answered on \<open>ws\<close>.\<close>

definition on_message :: "client_id \<Rightarrow> ws_ref \<Rightarrow> frame \<Rightarrow> server \<Rightarrow> (js_exn + unit) \<times> server" where
  "on_message clientId ws data s =
     (case (case JSON_parse data of
              Inl e \<Rightarrow> (Inl e, s)
            | Inr message \<Rightarrow> handleMessage clientId message s) of
        (Inl e, s') \<Rightarrow> send_stmt (Some ws) (ErrorMsg ''Invalid message format'') s'
      | (Inr u, s') \<Rightarrow> (Inr (), s'))"

definition on_close :: "client_id \<Rightarrow> server \<Rightarrow> server" where
  "on_close clientId s =
     s\<lparr>clients := Map_delete clientId (clients s),
       votedClients := Set_delete clientId (votedClients s)\<rparr>"

text \<open>
  The events that reach the handlers. The \<open>listening\<close> event of the server and the
  \<open>error\<close> event of a socket only log. \<open>Transport\<close> is the environment changing
  what a socket does.
\<close>

datatype event =
    Connection client_id ws_ref
  | Message client_id ws_ref frame
  | Close client_id
  | ServerError bool
  | Transport ws_ref socket

definition on_event :: "event \<Rightarrow> server \<Rightarrow> server" where
  "on_event e s =
     (case e of
        Connection clientId ws \<Rightarrow> on_connection clientId ws s
      | Message clientId ws data \<Rightarrow> snd (on_message clientId ws data s)
      | Close clientId \<Rightarrow> on_close clientId s
      | ServerError eaddrinuse \<Rightarrow> on_error eaddrinuse s
      | Transport ws k \<Rightarrow> s\<lparr>net := (net s)(ws := k)\<rparr>)"

primrec run :: "event list \<Rightarrow> server \<Rightarrow> server" where
  "run [] s = s"
| "run (e # es) s = run es (on_event e s)"

subsection \<open>Observations used by the properties\<close>

text \<open>The result of \<open>sendToClient\<close> on a socket: \<open>ws.send\<close> is reached and returns.\<close>

definition delivers :: "server \<Rightarrow> ws_ref \<Rightarrow> bool" where
  "delivers s ws = (readyState (net s ws) = OPEN \<and> \<not> sendThrows (net s ws))"

text \<open>The calls \<open>broadcastTally\<close> makes: one per registered session, in the order
  of the registry.\<close>

definition broadcast_calls :: "server \<Rightarrow> server_msg \<Rightarrow> send_call list" where
  "broadcast_calls s tallyMessage = map (\<lambda>(clientId, ws). (ws, tallyMessage, delivers s ws)) (clients s)"

text \<open>The sum of the counts of a tally, with JavaScript's addition.\<close>

fun js_add :: "jsnum \<Rightarrow> jsnum \<Rightarrow> jsnum" where
  "js_add (Num a) (Num b) = Num (a + b)"
| "js_add a b = NaN"

definition tally_sum :: "tally \<Rightarrow> jsnum" where
  "tally_sum t = foldr (\<lambda>(candidate, n) acc. js_add n acc) t (Num 0)"

text \<open>
  The sessions whose vote a run accepts, in order: a \<open>message\<close> event of a session
  that is not in \<open>votedClients\<close> before it and is in \<open>votedClients\<close> after it.
\<close>

definition vote_accepted :: "event \<Rightarrow> server \<Rightarrow> client_id list" where
  "vote_accepted e s =
     (case e of
        Message clientId ws data \<Rightarrow>
          if \<not> Set_has (votedClients s) clientId \<and> Set_has (votedClients (on_event e s)) clientId
          then [clientId] else []
      | _ \<Rightarrow> [])"

primrec accepted_sessions :: "event list \<Rightarrow> server \<Rightarrow> client_id list" where
  "accepted_sessions [] s = []"
| "accepted_sessions (e # es) s = vote_accepted e s @ accepted_sessions es (on_event e s)"

text \<open>
  The event sequences the WebSocket library produces. \<open>used\<close> holds the identifiers
  \<open>uuidv4\<close> has returned so far: a connection gets a fresh one; \<open>message\<close> and
  \<open>close\<close> come from a registered session, \<open>message\<close> on that session's socket;
  \<open>EADDRINUSE\<close> is an error of \<open>listen\<close>, before any connection.
\<close>

fun event_ok :: "client_id list \<Rightarrow> event \<Rightarrow> server \<Rightarrow> bool" where
  "event_ok used (Connection clientId ws) s = (clientId \<notin> set used)"
| "event_ok used (Message clientId ws data) s = (Map_get (clients s) clientId = Some ws)"
| "event_ok used (Close clientId) s = (clientId \<in> set (map fst (clients s)))"
| "event_ok used (ServerError eaddrinuse) s = (used = [])"
| "event_ok used (Transport ws k) s = True"

fun issued :: "client_id list \<Rightarrow> event \<Rightarrow> client_id list" where
  "issued used (Connection clientId ws) = clientId # used"
| "issued used e = used"

fun wf_trace :: "client_id list \<Rightarrow> event list \<Rightarrow> server \<Rightarrow> bool" where
  "wf_trace used [] s = True"
| "wf_trace used (e # es) s = (event_ok used e s \<and> wf_trace (issued used e) es (on_event e s))"

text \<open>
  The inbound shapes of the protocol: \<open>vote\<close> with a string \<open>candidate\<close>, and
  \<open>request_tally\<close>.
\<close>

definition known_shape :: "frame \<Rightarrow> bool" where
  "known_shape data =
     (case JSON_parse data of
        Inl e \<Rightarrow> False
      | Inr message \<Rightarrow>
          (case js_prop message ''type'' of
             Inl e \<Rightarrow> False
           | Inr t \<Rightarrow>
               t = Some (JString ''request_tally'') \<or>
               (t = Some (JString ''vote'') \<and>
                (case js_prop message ''candidate'' of
                   Inr (Some (JString c)) \<Rightarrow> True
                 | _ \<Rightarrow> False))))"

text \<open>
  The shape of the tally that every run keeps: the fixed candidate list, one entry per
  candidate in the list's order, every count a number.
\<close>

definition tally_ok :: "server \<Rightarrow> bool" where
  "tally_ok s =
     (candidates s = [''Candidate A'', ''Candidate B'', ''Candidate C''] \<and>
      map fst (votes s) = candidates s \<and>
      (\<forall>v \<in> set (map snd (votes s)). v \<noteq> NaN))"

text \<open>
  The bookkeeping of a run whose accepted sessions so far are \<open>acc\<close>: the tally sums to
  their number, no session occurs twice, and a registered session that is among them is
  still in \<open>votedClients\<close>.
\<close>

definition ledger_ok :: "client_id list \<Rightarrow> client_id list \<Rightarrow> server \<Rightarrow> bool" where
  "ledger_ok used acc s =
     (tally_ok s \<and>
      tally_sum (votes s) = Num (length acc) \<and>
      distinct acc \<and>
      set acc \<subseteq> set used \<and>
      set (map fst (clients s)) \<subseteq> set used \<and>
      (\<forall>c \<in> set (map fst (clients s)). c \<in> set acc \<longrightarrow> c \<in> set (votedClients s)))"


text \<open>
  The votes an event attributes to a session, read off the tally: a \<open>message\<close> event
  attributes to its session as many votes as it adds to the sum of the counts. No other
  event attributes a vote.
\<close>

fun js_minus :: "jsnum \<Rightarrow> jsnum \<Rightarrow> nat" where
  "js_minus (Num a) (Num b) = a - b"
| "js_minus a b = 0"




text \<open>A logged call is fine when, if it carries a \<open>tally_update\<close>, the message's
  \<open>totalVotes\<close> is the sum of the counts of the message's tally.\<close>

definition totalVotes_ok :: "send_call \<Rightarrow> bool" where
  "totalVotes_ok call =
     (case fst (snd call) of
        TallyUpdate t n \<Rightarrow> tally_sum t = Num n
      | _ \<Rightarrow> True)"


text \<open>
  The number of \<open>vote_confirmed\<close> messages for a candidate among the logged calls, and
  the bookkeeping that ties every count of the tally to it.
\<close>

definition confirmed_for :: "string \<Rightarrow> send_call list \<Rightarrow> nat" where
  "confirmed_for candidate calls =
     length (filter (\<lambda>call. fst (snd call) = VoteConfirmed candidate) calls)"

definition counts_ok :: "client_id list \<Rightarrow> server \<Rightarrow> bool" where
  "counts_ok used s =
     (tally_ok s \<and>
      set (map fst (clients s)) \<subseteq> set used \<and>
      (\<forall>c \<in> set (candidates s). Map_get (votes s) c = Some (Num (confirmed_for c (sendLog s)))) \<and>
      (used = [] \<longrightarrow> (\<forall>c. confirmed_for c (sendLog s) = 0)))"

subsection \<open>Scenario data\<close>

definition all_open :: "ws_ref \<Rightarrow> socket" where
  "all_open = (\<lambda>ws. \<lparr>readyState = OPEN, sendThrows = False\<rparr>)"

definition vote_msg :: "string \<Rightarrow> json" where
  "vote_msg c = JObject [(''type'', JString ''vote''), (''candidate'', JString c)]"

definition vote_no_candidate :: json where
  "vote_no_candidate = JObject [(''type'', JString ''vote'')]"

definition request_tally_msg :: json where
  "request_tally_msg = JObject [(''type'', JString ''request_tally'')]"

text \<open>A state with no configured candidate, to run \<open>initializeCandidates\<close> on a
  list of one's choice.\<close>

definition blank :: "string list \<Rightarrow> server" where
  "blank cs = \<lparr>port = 7004, clients = [], votes = [], votedClients = [], candidates = cs,
               net = all_open, sendLog = []\<rparr>"

text \<open>One session connected; then its vote for Candidate B recorded; then a second
  session connected.\<close>

definition one_client :: server where
  "one_client = run [Connection ''c1'' 1] (VoteServer 7004 all_open)"

definition one_voted :: server where
  "one_voted = run [Connection ''c1'' 1, Message ''c1'' 1 (Parsed (vote_msg ''Candidate B''))]
                   (VoteServer 7004 all_open)"

text \<open>Two sessions connect and the first votes; then, in \<open>disconnect_trace\<close>, the voter
  disconnects before the second session connects and asks for the tally.\<close>

definition two_sessions_trace :: "event list" where
  "two_sessions_trace =
     [Connection ''c1'' 1, Message ''c1'' 1 (Parsed (vote_msg ''Candidate A'')),
      Connection ''c2'' 2]"


section \<open>Basic facts\<close>

lemma interpolation_throws_simps [simp]:
  "interpolation_throws None = False"
  "interpolation_throws (Some (JString x)) = False"
  by (simp_all add: interpolation_throws_def)

lemma sendToClient_Some:
  "sendToClient (Some ws) m s = (Inr (delivers s ws), s\<lparr>sendLog := sendLog s @ [(ws, m, delivers s ws)]\<rparr>)"
  by (simp add: sendToClient_def delivers_def)

lemma sendToClient_None: "sendToClient None m s = (Inl TypeError, s)"
  by (simp add: sendToClient_def)

lemma send_stmt_Some:
  "send_stmt (Some ws) m s = (Inr (), s\<lparr>sendLog := sendLog s @ [(ws, m, delivers s ws)]\<rparr>)"
  by (simp add: send_stmt_def sendToClient_Some)

lemma send_stmt_None: "send_stmt None m s = (Inl TypeError, s)"
  by (simp add: send_stmt_def sendToClient_None)

lemma delivers_sendLog [simp]: "delivers (s\<lparr>sendLog := l\<rparr>) ws = delivers s ws"
  by (simp add: delivers_def)

lemma broadcast_each_snd:
  "snd (broadcast_each cl m n s) =
     s\<lparr>sendLog := sendLog s @ map (\<lambda>(clientId, ws). (ws, m, delivers s ws)) cl\<rparr>"
proof (induction cl arbitrary: n s)
  case Nil
  show ?case by simp
next
  case (Cons p cl)
  obtain c w where p: "p = (c, w)" by (cases p)
  show ?case
    by (cases "delivers s w") (simp_all add: p sendToClient_Some Cons.IH)
qed

lemma broadcastTally_eq:
  "broadcastTally s =
     s\<lparr>sendLog := sendLog s @
          broadcast_calls s (TallyUpdate (getTally s) (length (votedClients s)))\<rparr>"
  by (simp add: broadcastTally_def broadcast_each_snd broadcast_calls_def Set_size_def)

lemma getTally_votes [simp]: "getTally s = votes s"
  by (simp add: getTally_def)

lemma handleVote_already:
  "clientId \<in> set (votedClients s) \<Longrightarrow>
   handleVote clientId m s =
     send_stmt (Map_get (clients s) clientId) (ErrorMsg ''You have already voted!'') s"
  by (simp add: handleVote_def Set_has_def)

lemma handleVote_invalid:
  "clientId \<notin> set (votedClients s) \<Longrightarrow> js_prop m ''candidate'' = Inr v \<Longrightarrow>
   \<not> Array_includes (candidates s) v \<Longrightarrow>
   handleVote clientId m s =
     send_stmt (Map_get (clients s) clientId) (ErrorMsg ''Invalid candidate selected!'') s"
  by (simp add: handleVote_def Set_has_def)

lemma handleVote_record:
  "clientId \<notin> set (votedClients s) \<Longrightarrow> js_prop m ''candidate'' = Inr (Some (JString k)) \<Longrightarrow>
   k \<in> set (candidates s) \<Longrightarrow> Map_get (clients s) clientId = Some ws \<Longrightarrow>
   handleVote clientId m s =
     (Inr (),
      s\<lparr>votes := Map_set k (js_plus1 (Map_get (votes s) k)) (votes s),
        votedClients := votedClients s @ [clientId],
        sendLog := sendLog s @
          (ws, VoteConfirmed k, delivers s ws) #
          broadcast_calls s
            (TallyUpdate (Map_set k (js_plus1 (Map_get (votes s) k)) (votes s))
               (length (votedClients s) + 1))\<rparr>)"
  by (simp add: handleVote_def Set_has_def Set_add_def send_stmt_Some broadcastTally_eq
      broadcast_calls_def delivers_def)

lemma handleVote_record_unregistered:
  "clientId \<notin> set (votedClients s) \<Longrightarrow> js_prop m ''candidate'' = Inr (Some (JString k)) \<Longrightarrow>
   k \<in> set (candidates s) \<Longrightarrow> Map_get (clients s) clientId = None \<Longrightarrow>
   handleVote clientId m s =
     (Inl TypeError,
      s\<lparr>votes := Map_set k (js_plus1 (Map_get (votes s) k)) (votes s),
        votedClients := votedClients s @ [clientId]\<rparr>)"
  by (simp add: handleVote_def Set_has_def Set_add_def send_stmt_None)

lemma Array_includes_iff:
  "Array_includes cs v \<longleftrightarrow> (\<exists>c. v = Some (JString c) \<and> c \<in> set cs)"
  by (cases "(cs, v)" rule: Array_includes.cases) auto

lemma send_stmt_effect: "snd (send_stmt wso m s) = s\<lparr>sendLog := sendLog (snd (send_stmt wso m s))\<rparr>"
  by (cases wso) (simp_all add: send_stmt_Some send_stmt_None)

text \<open>What a call of \<open>handleVote\<close> can do to the state: nothing but sends, or the
  recording of one vote of a session that had not voted.\<close>

lemma handleVote_effect:
  assumes "s' = snd (handleVote clientId m s)"
  shows "s' = s\<lparr>sendLog := sendLog s'\<rparr> \<or>
         (clientId \<notin> set (votedClients s) \<and>
          (\<exists>k \<in> set (candidates s).
             s' = s\<lparr>votes := Map_set k (js_plus1 (Map_get (votes s) k)) (votes s),
                    votedClients := votedClients s @ [clientId],
                    sendLog := sendLog s'\<rparr>))"
proof (cases "clientId \<in> set (votedClients s)")
  case True
  then show ?thesis
    using assms send_stmt_effect by (simp add: handleVote_already)
next
  case nv: False
  show ?thesis
  proof (cases "js_prop m ''candidate''")
    case (Inl e)
    then show ?thesis using assms nv by (simp add: handleVote_def Set_has_def)
  next
    case (Inr v)
    show ?thesis
    proof (cases "Array_includes (candidates s) v")
      case False
      then show ?thesis
        using assms nv Inr send_stmt_effect by (simp add: handleVote_invalid)
    next
      case True
      then obtain k where k: "v = Some (JString k)" "k \<in> set (candidates s)"
        by (auto simp: Array_includes_iff)
      show ?thesis
      proof (cases "Map_get (clients s) clientId")
        case None
        have "s' = s\<lparr>votes := Map_set k (js_plus1 (Map_get (votes s) k)) (votes s),
                    votedClients := votedClients s @ [clientId]\<rparr>"
          using assms nv Inr k None by (simp add: handleVote_record_unregistered)
        then have "s' = s\<lparr>votes := Map_set k (js_plus1 (Map_get (votes s) k)) (votes s),
                    votedClients := votedClients s @ [clientId], sendLog := sendLog s'\<rparr>"
          by simp
        then show ?thesis using nv k by blast
      next
        case (Some ws)
        have "s' = s\<lparr>votes := Map_set k (js_plus1 (Map_get (votes s) k)) (votes s),
                    votedClients := votedClients s @ [clientId],
                    sendLog := sendLog s @
          (ws, VoteConfirmed k, delivers s ws) #
          broadcast_calls s
            (TallyUpdate (Map_set k (js_plus1 (Map_get (votes s) k)) (votes s))
               (length (votedClients s) + 1))\<rparr>"
          using assms nv Inr k Some by (simp add: handleVote_record)
        then have "s' = s\<lparr>votes := Map_set k (js_plus1 (Map_get (votes s) k)) (votes s),
                    votedClients := votedClients s @ [clientId], sendLog := sendLog s'\<rparr>"
          by simp
        then show ?thesis using nv k by blast
      qed
    qed
  qed
qed

lemma sendTallyToClient_effect:
  "snd (sendTallyToClient clientId s) = s\<lparr>sendLog := sendLog (snd (sendTallyToClient clientId s))\<rparr>"
  by (cases "Map_get (clients s) clientId") (simp_all add: sendTallyToClient_def sendToClient_Some)

lemma handleMessage_effect:
  assumes "s' = snd (handleMessage clientId m s)"
  shows "s' = s\<lparr>sendLog := sendLog s'\<rparr> \<or>
         (clientId \<notin> set (votedClients s) \<and>
          (\<exists>k \<in> set (candidates s).
             s' = s\<lparr>votes := Map_set k (js_plus1 (Map_get (votes s) k)) (votes s),
                    votedClients := votedClients s @ [clientId],
                    sendLog := sendLog s'\<rparr>))"
proof (cases "js_prop m ''type''")
  case (Inl e)
  then show ?thesis using assms by (simp add: handleMessage_def)
next
  case (Inr t)
  consider "t = Some (JString ''vote'')" | "t \<noteq> Some (JString ''vote'')" "t = Some (JString ''request_tally'')"
    | "t \<noteq> Some (JString ''vote'')" "t \<noteq> Some (JString ''request_tally'')" by blast
  then show ?thesis
  proof cases
    case 1
    then have "s' = snd (handleVote clientId m s)" using assms Inr by (simp add: handleMessage_def)
    then show ?thesis by (rule handleVote_effect)
  next
    case 2
    then have "s' = snd (sendTallyToClient clientId s)" using assms Inr by (simp add: handleMessage_def)
    then show ?thesis using sendTallyToClient_effect by simp
  next
    case 3
    show ?thesis
    proof (cases "interpolation_throws t")
      case True
      then show ?thesis using assms Inr by (simp add: handleMessage_def)
    next
      case False
      then have "s' = snd (send_stmt (Map_get (clients s) clientId) (ErrorMsg ''Unknown message type'') s)"
        using assms Inr 3 by (simp add: handleMessage_def)
      then show ?thesis using send_stmt_effect by simp
    qed
  qed
qed

lemma on_message_effect:
  assumes "s' = snd (on_message clientId ws data s)"
  shows "s' = s\<lparr>sendLog := sendLog s'\<rparr> \<or>
         (clientId \<notin> set (votedClients s) \<and>
          (\<exists>k \<in> set (candidates s).
             s' = s\<lparr>votes := Map_set k (js_plus1 (Map_get (votes s) k)) (votes s),
                    votedClients := votedClients s @ [clientId],
                    sendLog := sendLog s'\<rparr>))"
proof (cases "JSON_parse data")
  case (Inl e)
  then show ?thesis using assms by (simp add: on_message_def send_stmt_Some)
next
  case (Inr m)
  obtain r s1 where h: "handleMessage clientId m s = (r, s1)"
    by (cases "handleMessage clientId m s")
  then have s1: "s1 = snd (handleMessage clientId m s)" by simp
  have "s' = s1\<lparr>sendLog := sendLog s'\<rparr>"
    using assms Inr h by (cases r) (simp_all add: on_message_def send_stmt_Some)
  then obtain l where l: "s' = s1\<lparr>sendLog := l\<rparr>" ..
  from handleMessage_effect [OF s1] show ?thesis
  proof
    assume "s1 = s\<lparr>sendLog := sendLog s1\<rparr>"
    then obtain l1 where l1: "s1 = s\<lparr>sendLog := l1\<rparr>" ..
    have "s' = s\<lparr>sendLog := l\<rparr>" by (simp add: l l1)
    then have "s' = s\<lparr>sendLog := sendLog s'\<rparr>" by simp
    then show ?thesis ..
  next
    assume "clientId \<notin> set (votedClients s) \<and>
          (\<exists>k \<in> set (candidates s).
             s1 = s\<lparr>votes := Map_set k (js_plus1 (Map_get (votes s) k)) (votes s),
                    votedClients := votedClients s @ [clientId],
                    sendLog := sendLog s1\<rparr>)"
    then obtain k l1 where nv: "clientId \<notin> set (votedClients s)" and k: "k \<in> set (candidates s)"
      and l1: "s1 = s\<lparr>votes := Map_set k (js_plus1 (Map_get (votes s) k)) (votes s),
                    votedClients := votedClients s @ [clientId],
                    sendLog := l1\<rparr>" by blast
    have "s' = s\<lparr>votes := Map_set k (js_plus1 (Map_get (votes s) k)) (votes s),
                    votedClients := votedClients s @ [clientId],
                    sendLog := l\<rparr>"
      by (simp add: l l1)
    then have "s' = s\<lparr>votes := Map_set k (js_plus1 (Map_get (votes s) k)) (votes s),
                    votedClients := votedClients s @ [clientId],
                    sendLog := sendLog s'\<rparr>" by simp
    then show ?thesis using nv k by blast
  qed
qed

lemma Map_get_Map_set:
  "Map_get (Map_set k v m) k' = (if k' = k then Some v else Map_get m k')"
  by (induction m) (auto simp: Map_get_def)

lemma Map_set_keys:
  "k \<in> set (map fst m) \<Longrightarrow> map fst (Map_set k v m) = map fst m"
  by (induction m) auto

lemma Map_get_fold_zero:
  "Map_get (fold (\<lambda>candidate vs. Map_set candidate (Num 0) vs) cs vs0) k =
     (if k \<in> set cs then Some (Num 0) else Map_get vs0 k)"
  by (induction cs arbitrary: vs0) (auto simp: Map_get_Map_set)

lemma one_client_clients: "clients one_client = [(''c1'', 1)]"
  by (simp add: one_client_def VoteServer_def setupServer_def initializeCandidates_def
      on_event_def on_connection_def sendToClient_Some)

lemma one_client_votedClients: "votedClients one_client = []"
  by (simp add: one_client_def VoteServer_def setupServer_def initializeCandidates_def
      on_event_def on_connection_def sendToClient_Some)

lemma one_client_candidates: "candidates one_client = [''Candidate A'', ''Candidate B'', ''Candidate C'']"
  by (simp add: one_client_def VoteServer_def setupServer_def initializeCandidates_def
      on_event_def on_connection_def sendToClient_Some)

lemma one_client_votes:
  "votes one_client = [(''Candidate A'', Num 0), (''Candidate B'', Num 0), (''Candidate C'', Num 0)]"
  by (simp add: one_client_def VoteServer_def setupServer_def initializeCandidates_def
      on_event_def on_connection_def sendToClient_Some)

lemma one_client_delivers: "delivers one_client ws"
  by (simp add: one_client_def VoteServer_def setupServer_def initializeCandidates_def
      on_event_def on_connection_def sendToClient_Some delivers_def all_open_def)

lemma js_prop_vote_msg:
  "js_prop (vote_msg c) ''type'' = Inr (Some (JString ''vote''))"
  "js_prop (vote_msg c) ''candidate'' = Inr (Some (JString c))"
  by (simp_all add: vote_msg_def)

lemma one_client_vote_B:
  "handleVote ''c1'' (vote_msg ''Candidate B'') one_client =
     (Inr (),
      one_client\<lparr>votes := [(''Candidate A'', Num 0), (''Candidate B'', Num 1), (''Candidate C'', Num 0)],
        votedClients := [''c1''],
        sendLog := sendLog one_client @
          [(1, VoteConfirmed ''Candidate B'', True),
           (1, TallyUpdate [(''Candidate A'', Num 0), (''Candidate B'', Num 1), (''Candidate C'', Num 0)] 1,
            True)]\<rparr>)"
proof -
  have "handleVote ''c1'' (vote_msg ''Candidate B'') one_client =
     (Inr (),
      one_client\<lparr>votes := Map_set ''Candidate B'' (js_plus1 (Map_get (votes one_client) ''Candidate B'')) (votes one_client),
        votedClients := votedClients one_client @ [''c1''],
        sendLog := sendLog one_client @
          (1, VoteConfirmed ''Candidate B'', delivers one_client 1) #
          broadcast_calls one_client
            (TallyUpdate (Map_set ''Candidate B'' (js_plus1 (Map_get (votes one_client) ''Candidate B'')) (votes one_client))
               (length (votedClients one_client) + 1))\<rparr>)"
    by (rule handleVote_record)
      (simp_all add: one_client_clients one_client_votedClients one_client_candidates
        js_prop_vote_msg Map_get_def)
  then show ?thesis
    by (simp add: one_client_clients one_client_votedClients one_client_votes
        one_client_delivers broadcast_calls_def Map_get_def)
qed

lemma one_voted_eq:
  "one_voted =
     one_client\<lparr>votes := [(''Candidate A'', Num 0), (''Candidate B'', Num 1), (''Candidate C'', Num 0)],
        votedClients := [''c1''],
        sendLog := sendLog one_client @
          [(1, VoteConfirmed ''Candidate B'', True),
           (1, TallyUpdate [(''Candidate A'', Num 0), (''Candidate B'', Num 1), (''Candidate C'', Num 0)] 1,
            True)]\<rparr>"
proof -
  have "one_voted = snd (on_message ''c1'' 1 (Parsed (vote_msg ''Candidate B'')) one_client)"
    by (simp add: one_voted_def one_client_def on_event_def)
  then show ?thesis
    by (simp add: on_message_def JSON_parse_def handleMessage_def js_prop_vote_msg
        one_client_vote_B)
qed

lemma handleVote_no_string:
  assumes "Map_get (clients s) clientId = Some ws"
    and "js_prop m ''candidate'' = Inr v"
    and "\<forall>c. v \<noteq> Some (JString c)"
  shows "handleVote clientId m s =
           (Inr (), s\<lparr>sendLog := sendLog s @
              [(ws, ErrorMsg (if Set_has (votedClients s) clientId
                              then ''You have already voted!''
                              else ''Invalid candidate selected!''), delivers s ws)]\<rparr>)"
proof (cases "clientId \<in> set (votedClients s)")
  case True
  then show ?thesis
    using assms(1) by (simp add: handleVote_already send_stmt_Some Set_has_def)
next
  case False
  have "\<not> Array_includes (candidates s) v"
    using assms(3) by (simp add: Array_includes_iff)
  then show ?thesis
    using False assms(1,2) by (simp add: handleVote_invalid send_stmt_Some Set_has_def)
qed

lemma one_voted_clients: "clients one_voted = [(''c1'', 1)]"
  by (simp add: one_voted_eq one_client_clients)

lemma one_voted_votedClients: "votedClients one_voted = [''c1'']"
  by (simp add: one_voted_eq)

lemma one_voted_delivers: "delivers one_voted ws"
  using one_client_delivers [of ws] by (simp add: one_voted_eq delivers_def)

lemma js_prop_Inr_both:
  "js_prop m k = Inr t \<Longrightarrow> \<exists>v. js_prop m k' = Inr v"
  by (cases m) simp_all

lemma Map_set_vals:
  "set (map snd (Map_set k v m)) \<subseteq> insert v (set (map snd m))"
  by (induction m) auto

lemma Map_get_key:
  "k \<in> set (map fst m) \<Longrightarrow> \<exists>v. Map_get m k = Some v \<and> v \<in> set (map snd m)"
  by (induction m) (auto simp: Map_get_def)

lemma Map_get_Num:
  assumes "k \<in> set (map fst m)" and "\<forall>v \<in> set (map snd m). v \<noteq> NaN"
  shows "\<exists>n. Map_get m k = Some (Num n)"
proof -
  obtain v where v: "Map_get m k = Some v" "v \<in> set (map snd m)"
    using Map_get_key [OF assms(1)] by blast
  then have "v \<noteq> NaN" using assms(2) by blast
  then show ?thesis using v(1) by (cases v) auto
qed

lemma tally_ok_setupServer: "tally_ok (setupServer s)"
  by (simp add: tally_ok_def setupServer_def initializeCandidates_def)

lemma tally_ok_VoteServer: "tally_ok (VoteServer p env)"
  by (simp add: VoteServer_def tally_ok_setupServer)

lemma tally_ok_sendLog [simp]: "tally_ok (s\<lparr>sendLog := l\<rparr>) = tally_ok s"
  by (simp add: tally_ok_def)

lemma tally_ok_record:
  assumes "tally_ok s" and "k \<in> set (candidates s)"
  shows "tally_ok (s\<lparr>votes := Map_set k (js_plus1 (Map_get (votes s) k)) (votes s),
                     votedClients := vc, sendLog := l\<rparr>)"
proof -
  have keys: "k \<in> set (map fst (votes s))" using assms by (simp add: tally_ok_def)
  have nums: "\<forall>v \<in> set (map snd (votes s)). v \<noteq> NaN" using assms(1) by (simp add: tally_ok_def)
  obtain n where n: "Map_get (votes s) k = Some (Num n)"
    using Map_get_Num [OF keys nums] by blast
  have "set (map snd (Map_set k (Num (n + 1)) (votes s))) \<subseteq> insert (Num (n + 1)) (set (map snd (votes s)))"
    by (rule Map_set_vals)
  moreover have "Num (n + 1) \<noteq> NaN" by simp
  ultimately have "\<forall>v \<in> set (map snd (Map_set k (Num (n + 1)) (votes s))). v \<noteq> NaN"
    using nums by blast
  then show ?thesis
    using assms(1) keys n by (simp add: tally_ok_def Map_set_keys)
qed

lemma tally_ok_on_message:
  assumes "tally_ok s"
  shows "tally_ok (snd (on_message clientId ws data s))"
proof -
  define s' where "s' = snd (on_message clientId ws data s)"
  from on_message_effect [OF s'_def] have "tally_ok s'"
  proof
    assume "s' = s\<lparr>sendLog := sendLog s'\<rparr>"
    then obtain l where "s' = s\<lparr>sendLog := l\<rparr>" ..
    then show ?thesis using assms by simp
  next
    assume "clientId \<notin> set (votedClients s) \<and>
          (\<exists>k \<in> set (candidates s).
             s' = s\<lparr>votes := Map_set k (js_plus1 (Map_get (votes s) k)) (votes s),
                    votedClients := votedClients s @ [clientId],
                    sendLog := sendLog s'\<rparr>)"
    then obtain k l where k: "k \<in> set (candidates s)"
       "s' = s\<lparr>votes := Map_set k (js_plus1 (Map_get (votes s) k)) (votes s),
                    votedClients := votedClients s @ [clientId],
                    sendLog := l\<rparr>" by blast
    show ?thesis
      unfolding k(2) using assms k(1) by (rule tally_ok_record)
  qed
  then show ?thesis by (simp add: s'_def)
qed

lemma on_connection_eq:
  "on_connection clientId ws s =
     s\<lparr>clients := Map_set clientId ws (clients s),
       sendLog := sendLog s @ [(ws, Welcome clientId (candidates s) (getTally s), delivers s ws)]\<rparr>"
  by (simp add: on_connection_def Let_def sendToClient_Some delivers_def)

lemma tally_ok_on_event:
  assumes "tally_ok s"
  shows "tally_ok (on_event e s)"
proof (cases e)
  case (Connection c w)
  then show ?thesis
    using assms by (simp add: on_event_def on_connection_eq tally_ok_def)
next
  case (Message c w d)
  then show ?thesis
    using tally_ok_on_message [OF assms] by (simp add: on_event_def)
next
  case (Close c)
  then show ?thesis using assms by (simp add: on_event_def on_close_def tally_ok_def)
next
  case (ServerError b)
  then show ?thesis using assms by (simp add: on_event_def on_error_def tally_ok_setupServer)
next
  case (Transport w k)
  then show ?thesis using assms by (simp add: on_event_def tally_ok_def)
qed

lemma tally_ok_run: "tally_ok s \<Longrightarrow> tally_ok (run evs s)"
  by (induction evs arbitrary: s) (simp_all add: tally_ok_on_event)

lemma tally_sum_Cons: "tally_sum ((c, v) # t) = js_add v (tally_sum t)"
  by (simp add: tally_sum_def)

lemma tally_sum_Nil: "tally_sum [] = Num 0"
  by (simp add: tally_sum_def)

lemma tally_sum_Num:
  "\<forall>v \<in> set (map snd t). v \<noteq> NaN \<Longrightarrow> \<exists>n. tally_sum t = Num n"
proof (induction t)
  case Nil
  show ?case by (simp add: tally_sum_Nil)
next
  case (Cons p t)
  obtain c v where p: "p = (c, v)" by (cases p)
  from Cons.prems have "v \<noteq> NaN" by (simp add: p)
  then obtain a where a: "v = Num a" by (cases v) auto
  from Cons obtain b where "tally_sum t = Num b" by auto
  then show ?case by (simp add: p a tally_sum_Cons)
qed

lemma tally_sum_record:
  assumes "\<forall>v \<in> set (map snd t). v \<noteq> NaN" and "k \<in> set (map fst t)"
    and "tally_sum t = Num n"
  shows "tally_sum (Map_set k (js_plus1 (Map_get t k)) t) = Num (n + 1)"
  using assms
proof (induction t arbitrary: n)
  case Nil
  then show ?case by simp
next
  case (Cons p t)
  obtain c v where p: "p = (c, v)" by (cases p)
  from Cons.prems(1) have "v \<noteq> NaN" by (simp add: p)
  then obtain a where a: "v = Num a" by (cases v) auto
  from Cons.prems(1) have nums: "\<forall>v \<in> set (map snd t). v \<noteq> NaN" by simp
  then obtain b where b: "tally_sum t = Num b" using tally_sum_Num by blast
  have n: "n = a + b" using Cons.prems(3) by (simp add: p a b tally_sum_Cons)
  show ?case
  proof (cases "c = k")
    case True
    then show ?thesis by (simp add: p a b n tally_sum_Cons Map_get_def)
  next
    case False
    then have "k \<in> set (map fst t)" using Cons.prems(2) by (auto simp: p)
    from Cons.IH [OF nums this b]
    have "tally_sum (Map_set k (js_plus1 (Map_get t k)) t) = Num (b + 1)" .
    then show ?thesis using False by (simp add: p a n tally_sum_Cons Map_get_def)
  qed
qed

lemma Map_set_dom: "set (map fst (Map_set k v m)) = insert k (set (map fst m))"
  by (induction m) auto

lemma Map_delete_dom: "set (map fst (Map_delete k m)) = set (map fst m) - {k}"
  by (auto simp: Map_delete_def)

lemma Map_get_dom: "Map_get m k = Some v \<Longrightarrow> k \<in> set (map fst m)"
  by (induction m) (auto simp: Map_get_def split: if_splits)

lemma ledger_ok_VoteServer: "ledger_ok [] [] (VoteServer p env)"
  by (simp add: ledger_ok_def tally_ok_VoteServer)
     (simp add: VoteServer_def setupServer_def initializeCandidates_def tally_sum_def)

lemma ledger_ok_sendLog [simp]: "ledger_ok used acc (s\<lparr>sendLog := l\<rparr>) = ledger_ok used acc s"
  by (simp add: ledger_ok_def)

lemma ledger_okI:
  assumes "tally_ok s" and "tally_sum (votes s) = Num (length acc)" and "distinct acc"
    and "set acc \<subseteq> set used" and "fst ` set (clients s) \<subseteq> set used"
    and "\<And>c. c \<in> fst ` set (clients s) \<Longrightarrow> c \<in> set acc \<Longrightarrow> c \<in> set (votedClients s)"
  shows "ledger_ok used acc s"
  using assms by (simp add: ledger_ok_def)

lemma ledger_okD:
  assumes "ledger_ok used acc s"
  shows "tally_ok s" and "tally_sum (votes s) = Num (length acc)" and "distinct acc"
    and "set acc \<subseteq> set used" and "fst ` set (clients s) \<subseteq> set used"
    and "\<And>c. c \<in> fst ` set (clients s) \<Longrightarrow> c \<in> set acc \<Longrightarrow> c \<in> set (votedClients s)"
  using assms by (auto simp: ledger_ok_def)

lemma Map_set_image: "fst ` set (Map_set k v m) = insert k (fst ` set m)"
  using Map_set_dom [of k v m] by simp

lemma Map_delete_image: "fst ` set (Map_delete k m) = fst ` set m - {k}"
  using Map_delete_dom [of k m] by simp

lemma ledger_ok_connection:
  assumes "ledger_ok used acc s" and "clientId \<notin> set used"
  shows "ledger_ok (clientId # used) acc (on_connection clientId ws s)"
proof -
  note d = ledger_okD [OF assms(1)]
  define s' where "s' = s\<lparr>clients := Map_set clientId ws (clients s)\<rparr>"
  have ok: "tally_ok s'"
    using d(1) by (simp add: tally_ok_def s'_def)
  have sum: "tally_sum (votes s') = Num (length acc)"
    using d(2) by (simp add: s'_def)
  have keys: "fst ` set (clients s') = insert clientId (fst ` set (clients s))"
    by (simp add: s'_def Map_set_image)
  have vc: "votedClients s' = votedClients s"
    by (simp add: s'_def)
  have fresh: "clientId \<notin> set acc"
    using d(4) assms(2) by blast
  have "ledger_ok (clientId # used) acc s'"
  proof (rule ledger_okI)
    show "tally_ok s'" by (rule ok)
    show "tally_sum (votes s') = Num (length acc)" by (rule sum)
    show "distinct acc" by (rule d(3))
    show "set acc \<subseteq> set (clientId # used)" using d(4) by auto
    show "fst ` set (clients s') \<subseteq> set (clientId # used)" using d(5) keys by auto
    show "c \<in> set (votedClients s')" if "c \<in> fst ` set (clients s')" "c \<in> set acc" for c
      using that keys fresh d(6) vc by auto
  qed
  then show ?thesis
    by (simp add: on_connection_eq s'_def)
qed

lemma ledger_ok_close:
  assumes "ledger_ok used acc s"
  shows "ledger_ok used acc (on_close clientId s)"
proof -
  note d = ledger_okD [OF assms]
  define s' where "s' = on_close clientId s"
  have ok: "tally_ok s'"
    using d(1) by (simp add: tally_ok_def s'_def on_close_def)
  have sum: "tally_sum (votes s') = Num (length acc)"
    using d(2) by (simp add: s'_def on_close_def)
  have keys: "fst ` set (clients s') = fst ` set (clients s) - {clientId}"
    by (simp add: s'_def on_close_def Map_delete_image)
  have vc: "set (votedClients s') = set (votedClients s) - {clientId}"
    by (simp add: s'_def on_close_def Set_delete_def)
  have "ledger_ok used acc s'"
  proof (rule ledger_okI)
    show "tally_ok s'" by (rule ok)
    show "tally_sum (votes s') = Num (length acc)" by (rule sum)
    show "distinct acc" by (rule d(3))
    show "set acc \<subseteq> set used" by (rule d(4))
    show "fst ` set (clients s') \<subseteq> set used" using d(5) keys by auto
    show "c \<in> set (votedClients s')" if "c \<in> fst ` set (clients s')" "c \<in> set acc" for c
      using that keys d(6) vc by auto
  qed
  then show ?thesis by (simp add: s'_def)
qed

lemma ledger_ok_error:
  assumes "ledger_ok [] acc s"
  shows "ledger_ok [] acc (on_error eaddrinuse s)"
proof (cases eaddrinuse)
  case False
  then show ?thesis using assms by (simp add: on_error_def)
next
  case True
  have acc: "acc = []" using assms by (simp add: ledger_ok_def)
  have "ledger_ok [] [] (setupServer (s\<lparr>port := port s + 1\<rparr>))"
    by (simp add: ledger_ok_def tally_ok_setupServer)
       (simp add: setupServer_def initializeCandidates_def tally_sum_def)
  then show ?thesis using True acc by (simp add: on_error_def)
qed

lemma ledger_ok_transport:
  assumes "ledger_ok used acc s"
  shows "ledger_ok used acc (s\<lparr>net := f\<rparr>)"
  using assms by (simp add: ledger_ok_def tally_ok_def)

lemma ledger_ok_message:
  assumes "ledger_ok used acc s" and "Map_get (clients s) clientId = Some ws"
  shows "ledger_ok used (acc @ vote_accepted (Message clientId ws data) s)
           (snd (on_message clientId ws data s))"
proof -
  define s' where "s' = snd (on_message clientId ws data s)"
  have ev: "on_event (Message clientId ws data) s = s'"
    by (simp add: on_event_def s'_def)
  have reg: "clientId \<in> set (map fst (clients s))"
    using assms(2) by (rule Map_get_dom)
  from on_message_effect [OF s'_def]
  have "ledger_ok used (acc @ vote_accepted (Message clientId ws data) s) s'"
  proof
    assume "s' = s\<lparr>sendLog := sendLog s'\<rparr>"
    then obtain l where l: "s' = s\<lparr>sendLog := l\<rparr>" ..
    have "vote_accepted (Message clientId ws data) s = []"
      by (simp add: vote_accepted_def ev l Set_has_def)
    then show ?thesis using assms(1) by (simp add: l)
  next
    assume "clientId \<notin> set (votedClients s) \<and>
          (\<exists>k \<in> set (candidates s).
             s' = s\<lparr>votes := Map_set k (js_plus1 (Map_get (votes s) k)) (votes s),
                    votedClients := votedClients s @ [clientId],
                    sendLog := sendLog s'\<rparr>)"
    then obtain k l where nv: "clientId \<notin> set (votedClients s)" and k: "k \<in> set (candidates s)"
      and l: "s' = s\<lparr>votes := Map_set k (js_plus1 (Map_get (votes s) k)) (votes s),
                    votedClients := votedClients s @ [clientId],
                    sendLog := l\<rparr>" by blast
    have va: "vote_accepted (Message clientId ws data) s = [clientId]"
      using nv by (simp add: vote_accepted_def ev l Set_has_def)
    have ok: "tally_ok s" using assms(1) by (simp add: ledger_ok_def)
    have ok': "tally_ok s'" unfolding l using ok k by (rule tally_ok_record)
    have keys: "k \<in> set (map fst (votes s))" using ok k by (simp add: tally_ok_def)
    have nums: "\<forall>v \<in> set (map snd (votes s)). v \<noteq> NaN" using ok by (simp add: tally_ok_def)
    have sum: "tally_sum (votes s) = Num (length acc)" using assms(1) by (simp add: ledger_ok_def)
    have sum': "tally_sum (votes s') = Num (length acc + 1)"
      using tally_sum_record [OF nums keys sum] by (simp add: l)
    note d = ledger_okD [OF assms(1)]
    have reg': "clientId \<in> fst ` set (clients s)" using reg by simp
    have fresh: "clientId \<notin> set acc"
      using d(6) [OF reg'] nv by blast
    have used: "clientId \<in> set used"
      using d(5) reg' by blast
    have cl: "clients s' = clients s" "votedClients s' = votedClients s @ [clientId]"
      by (simp_all add: l)
    have "ledger_ok used (acc @ [clientId]) s'"
    proof (rule ledger_okI)
      show "tally_ok s'" by (rule ok')
      show "tally_sum (votes s') = Num (length (acc @ [clientId]))" using sum' by simp
      show "distinct (acc @ [clientId])" using d(3) fresh by simp
      show "set (acc @ [clientId]) \<subseteq> set used" using d(4) used by simp
      show "fst ` set (clients s') \<subseteq> set used" using d(5) cl(1) by simp
      show "c \<in> set (votedClients s')" if "c \<in> fst ` set (clients s')" "c \<in> set (acc @ [clientId])" for c
        using that d(6) cl by auto
    qed
    then show ?thesis by (simp add: va)
  qed
  then show ?thesis by (simp add: s'_def)
qed

lemma ledger_ok_step:
  assumes "ledger_ok used acc s" and "event_ok used e s"
  shows "ledger_ok (issued used e) (acc @ vote_accepted e s) (on_event e s)"
proof (cases e)
  case (Connection c w)
  then show ?thesis
    using assms ledger_ok_connection [of used acc s c w]
    by (simp add: on_event_def vote_accepted_def)
next
  case (Message c w d)
  then show ?thesis
    using assms ledger_ok_message [of used acc s c w d] by (simp add: on_event_def)
next
  case (Close c)
  then show ?thesis
    using assms ledger_ok_close [of used acc s c] by (simp add: on_event_def vote_accepted_def)
next
  case (ServerError b)
  then show ?thesis
    using assms ledger_ok_error [of acc s b] by (simp add: on_event_def vote_accepted_def)
next
  case (Transport w k)
  then show ?thesis
    using assms ledger_ok_transport [of used acc s] by (simp add: on_event_def vote_accepted_def)
qed

lemma ledger_ok_run:
  "ledger_ok used acc s \<Longrightarrow> wf_trace used evs s \<Longrightarrow>
   \<exists>used'. ledger_ok used' (acc @ accepted_sessions evs s) (run evs s)"
proof (induction evs arbitrary: used acc s)
  case Nil
  then show ?case by auto
next
  case (Cons e evs)
  have "ledger_ok (issued used e) (acc @ vote_accepted e s) (on_event e s)"
    using Cons.prems by (simp add: ledger_ok_step)
  moreover have "wf_trace (issued used e) evs (on_event e s)"
    using Cons.prems by simp
  ultimately have "\<exists>used'. ledger_ok used' ((acc @ vote_accepted e s) @ accepted_sessions evs (on_event e s))
      (run evs (on_event e s))"
    by (rule Cons.IH)
  then show ?case by simp
qed

lemma on_message_request_tally:
  assumes "Map_get (clients s) clientId = Some ws"
  shows "on_message clientId ws (Parsed request_tally_msg) s =
           (Inr (), s\<lparr>sendLog := sendLog s @
              [(ws, TallyUpdate (getTally s) (Set_size (votedClients s)), delivers s ws)]\<rparr>)"
  using assms
  by (simp add: on_message_def JSON_parse_def handleMessage_def sendTallyToClient_def
      sendToClient_Some request_tally_msg_def)







lemma two_sessions_wf: "wf_trace [] two_sessions_trace (VoteServer 7004 all_open)"
  by code_simp

lemma two_sessions_accepted:
  "accepted_sessions two_sessions_trace (VoteServer 7004 all_open) = [''c1'']"
  by code_simp

lemma on_message_undecodable:
  assumes "Map_get (clients s) clientId = Some ws"
    and "\<not> known_shape data"
  shows "on_message clientId ws data s =
           (Inr (),
            s\<lparr>sendLog := sendLog s @
               [(ws,
                 ErrorMsg
                   (case JSON_parse data of
                      Inl e \<Rightarrow> ''Invalid message format''
                    | Inr message \<Rightarrow>
                        (case js_prop message ''type'' of
                           Inl e \<Rightarrow> ''Invalid message format''
                         | Inr t \<Rightarrow>
                             if interpolation_throws t then ''Invalid message format''
                             else if t = Some (JString ''vote'') then
                               (if Set_has (votedClients s) clientId
                                then ''You have already voted!''
                                else ''Invalid candidate selected!'')
                             else ''Unknown message type'')),
                 delivers s ws)]\<rparr>)"
proof (cases data)
  case Unparsable
  then show ?thesis
    by (simp add: on_message_def JSON_parse_def send_stmt_Some)
next
  case (Parsed m)
  show ?thesis
  proof (cases "js_prop m ''type''")
    case (Inl e)
    then show ?thesis
      using Parsed by (simp add: on_message_def JSON_parse_def handleMessage_def send_stmt_Some)
  next
    case (Inr t)
    have nr: "t \<noteq> Some (JString ''request_tally'')"
      using assms(2) Parsed Inr by (auto simp: known_shape_def JSON_parse_def)
    show ?thesis
    proof (cases "interpolation_throws t")
      case True
      then show ?thesis
        using Parsed Inr
        by (simp add: on_message_def JSON_parse_def handleMessage_def send_stmt_Some)
    next
      case nt: False
      show ?thesis
      proof (cases "t = Some (JString ''vote'')")
        case True
        obtain v where v: "js_prop m ''candidate'' = Inr v"
          using js_prop_Inr_both [OF Inr] by blast
        have ns: "\<forall>c. v \<noteq> Some (JString c)"
          using assms(2) Parsed Inr True v by (auto simp: known_shape_def JSON_parse_def)
        show ?thesis
          using Parsed Inr True handleVote_no_string [OF assms(1) v ns]
          by (simp add: on_message_def JSON_parse_def handleMessage_def)
      next
        case False
        then show ?thesis
          using Parsed Inr nr nt assms(1)
          by (simp add: on_message_def JSON_parse_def handleMessage_def send_stmt_Some)
      qed
    qed
  qed
qed

lemma on_message_cases:
  assumes "Map_get (clients s) clientId = Some ws"
  shows "(\<exists>e. on_message clientId ws data s =
            (Inr (), s\<lparr>sendLog := sendLog s @ [(ws, ErrorMsg e, delivers s ws)]\<rparr>)) \<or>
         on_message clientId ws data s =
            (Inr (), s\<lparr>sendLog := sendLog s @
               [(ws, TallyUpdate (votes s) (length (votedClients s)), delivers s ws)]\<rparr>) \<or>
         (clientId \<notin> set (votedClients s) \<and>
          (\<exists>k \<in> set (candidates s).
             on_message clientId ws data s =
               (Inr (),
                s\<lparr>votes := Map_set k (js_plus1 (Map_get (votes s) k)) (votes s),
                  votedClients := votedClients s @ [clientId],
                  sendLog := sendLog s @
                    (ws, VoteConfirmed k, delivers s ws) #
                    broadcast_calls s
                      (TallyUpdate (Map_set k (js_plus1 (Map_get (votes s) k)) (votes s))
                         (length (votedClients s) + 1))\<rparr>)))"
proof (cases "known_shape data")
  case False
  with assms show ?thesis
    using on_message_undecodable [of s clientId ws data] by blast
next
  case True
  then obtain m where m: "data = Parsed m"
    by (cases data) (simp_all add: known_shape_def JSON_parse_def)
  from True m obtain t where t: "js_prop m ''type'' = Inr t"
    by (cases "js_prop m ''type''") (simp_all add: known_shape_def JSON_parse_def)
  from True m t consider (req) "t = Some (JString ''request_tally'')"
    | (vote) k where "t = Some (JString ''vote'')" "js_prop m ''candidate'' = Inr (Some (JString k))"
    by (auto simp: known_shape_def JSON_parse_def split: sum.splits option.splits json.splits)
  then show ?thesis
  proof cases
    case req
    have "on_message clientId ws data s =
            (Inr (), s\<lparr>sendLog := sendLog s @
               [(ws, TallyUpdate (votes s) (length (votedClients s)), delivers s ws)]\<rparr>)"
      using assms m t req
      by (simp add: on_message_def JSON_parse_def handleMessage_def sendTallyToClient_def
          sendToClient_Some Set_size_def)
    then show ?thesis by blast
  next
    case vote
    have om: "on_message clientId ws data s =
        (case handleVote clientId m s of
           (Inl e, s') \<Rightarrow> send_stmt (Some ws) (ErrorMsg ''Invalid message format'') s'
         | (Inr u, s') \<Rightarrow> (Inr (), s'))"
      using m t vote(1) by (simp add: on_message_def JSON_parse_def handleMessage_def)
    show ?thesis
    proof (cases "clientId \<in> set (votedClients s)")
      case True
      have "on_message clientId ws data s =
          (Inr (), s\<lparr>sendLog := sendLog s @
             [(ws, ErrorMsg ''You have already voted!'', delivers s ws)]\<rparr>)"
        using True assms by (simp add: om handleVote_already send_stmt_Some)
      then show ?thesis by blast
    next
      case nv: False
      show ?thesis
      proof (cases "k \<in> set (candidates s)")
        case False
        have "on_message clientId ws data s =
          (Inr (), s\<lparr>sendLog := sendLog s @
             [(ws, ErrorMsg ''Invalid candidate selected!'', delivers s ws)]\<rparr>)"
          using handleVote_invalid [OF nv vote(2)] False assms
          by (simp add: om send_stmt_Some)
        then show ?thesis by blast
      next
        case True
        have "on_message clientId ws data s =
               (Inr (),
                s\<lparr>votes := Map_set k (js_plus1 (Map_get (votes s) k)) (votes s),
                  votedClients := votedClients s @ [clientId],
                  sendLog := sendLog s @
                    (ws, VoteConfirmed k, delivers s ws) #
                    broadcast_calls s
                      (TallyUpdate (Map_set k (js_plus1 (Map_get (votes s) k)) (votes s))
                         (length (votedClients s) + 1))\<rparr>)"
          using handleVote_record [OF nv vote(2) True assms] by (simp add: om)
        then show ?thesis using nv True by blast
      qed
    qed
  qed
qed

lemma js_minus_same: "js_minus (Num n) (Num n) = 0"
  by simp






lemma totalVotes_ok_simps [simp]:
  "totalVotes_ok (w, ErrorMsg e, b)"
  "totalVotes_ok (w, VoteConfirmed k, b)"
  "totalVotes_ok (w, Welcome c cs ty, b)"
  "totalVotes_ok (w, TallyUpdate ty n, b) = (tally_sum ty = Num n)"
  by (simp_all add: totalVotes_ok_def)





lemma Map_get_Cons:
  "Map_get ((k, v) # m) k' = (if k' = k then Some v else Map_get m k')"
  by (simp add: Map_get_def)

text \<open>A \<open>Map\<close> is its keys, in order, each with the value \<open>get\<close> returns.\<close>

lemma Map_entries_by_get:
  "distinct (map fst m) \<Longrightarrow>
   m = map (\<lambda>k. (k, case Map_get m k of Some v \<Rightarrow> v | None \<Rightarrow> d)) (map fst m)"
proof (induction m)
  case Nil
  show ?case by simp
next
  case (Cons p m)
  obtain k v where p: "p = (k, v)" by (cases p)
  have nk: "k \<notin> set (map fst m)" and dm: "distinct (map fst m)"
    using Cons.prems by (simp_all add: p)
  have "map (\<lambda>k'. (k', case Map_get ((k, v) # m) k' of Some v \<Rightarrow> v | None \<Rightarrow> d)) (map fst m) =
        map (\<lambda>k'. (k', case Map_get m k' of Some v \<Rightarrow> v | None \<Rightarrow> d)) (map fst m)"
    using nk by (intro map_cong) (auto simp: Map_get_Cons)
  also have "\<dots> = m" using Cons.IH [OF dm] by simp
  finally show ?case by (simp add: p Map_get_Cons)
qed

lemma tally_ok_entries:
  assumes "tally_ok s"
  shows "votes s = map (\<lambda>c. (c, case Map_get (votes s) c of Some n \<Rightarrow> n | None \<Rightarrow> NaN)) (candidates s)"
proof -
  have k: "map fst (votes s) = candidates s" and c: "candidates s = [''Candidate A'', ''Candidate B'', ''Candidate C'']"
    using assms by (simp_all add: tally_ok_def)
  have "distinct (candidates s)" by (simp add: c)
  then have "distinct (map fst (votes s))" by (simp add: k)
  from Map_entries_by_get [OF this, of NaN] show ?thesis by (simp add: k)
qed

lemma confirmed_for_append [simp]:
  "confirmed_for c (xs @ ys) = confirmed_for c xs + confirmed_for c ys"
  by (simp add: confirmed_for_def)

lemma confirmed_for_simps [simp]:
  "confirmed_for c [] = 0"
  "confirmed_for c ((w, ErrorMsg e, b) # xs) = confirmed_for c xs"
  "confirmed_for c ((w, Welcome i cs ty, b) # xs) = confirmed_for c xs"
  "confirmed_for c ((w, TallyUpdate ty n, b) # xs) = confirmed_for c xs"
  "confirmed_for c ((w, VoteConfirmed k, b) # xs) = (if k = c then 1 else 0) + confirmed_for c xs"
  by (simp_all add: confirmed_for_def)

lemma confirmed_for_broadcast [simp]:
  "confirmed_for c (broadcast_calls s (TallyUpdate ty n)) = 0"
  by (simp add: confirmed_for_def broadcast_calls_def filter_empty_conv split_def)

lemma counts_okI:
  assumes "tally_ok s" and "fst ` set (clients s) \<subseteq> set used"
    and "\<And>c. c \<in> set (candidates s) \<Longrightarrow> Map_get (votes s) c = Some (Num (confirmed_for c (sendLog s)))"
    and "\<And>c. used = [] \<Longrightarrow> confirmed_for c (sendLog s) = 0"
  shows "counts_ok used s"
  using assms by (simp add: counts_ok_def)

lemma counts_okD:
  assumes "counts_ok used s"
  shows "tally_ok s" and "fst ` set (clients s) \<subseteq> set used"
    and "\<And>c. c \<in> set (candidates s) \<Longrightarrow> Map_get (votes s) c = Some (Num (confirmed_for c (sendLog s)))"
    and "\<And>c. used = [] \<Longrightarrow> confirmed_for c (sendLog s) = 0"
  using assms by (simp_all add: counts_ok_def)

lemma counts_ok_setupServer:
  assumes "\<And>c. confirmed_for c (sendLog s) = 0"
  shows "counts_ok [] (setupServer s)"
proof (rule counts_okI)
  show "tally_ok (setupServer s)" by (rule tally_ok_setupServer)
  show "fst ` set (clients (setupServer s)) \<subseteq> set []"
    by (simp add: setupServer_def initializeCandidates_def)
  show "Map_get (votes (setupServer s)) c = Some (Num (confirmed_for c (sendLog (setupServer s))))"
    if "c \<in> set (candidates (setupServer s))" for c
  proof -
    have "sendLog (setupServer s) = sendLog s"
      by (simp add: setupServer_def initializeCandidates_def)
    then have "confirmed_for c (sendLog (setupServer s)) = 0" using assms by simp
    moreover have "Map_get (votes (setupServer s)) c = Some (Num 0)"
      using that by (auto simp: setupServer_def initializeCandidates_def Map_get_def)
    ultimately show ?thesis by simp
  qed
  show "confirmed_for c (sendLog (setupServer s)) = 0" for c
    using assms by (simp add: setupServer_def initializeCandidates_def)
qed

lemma counts_ok_VoteServer: "counts_ok [] (VoteServer p env)"
  unfolding VoteServer_def by (rule counts_ok_setupServer) simp

lemma counts_ok_step:
  assumes "counts_ok used s" and "event_ok used e s"
  shows "counts_ok (issued used e) (on_event e s)"
proof -
  note d = counts_okD [OF assms(1)]
  have ok': "tally_ok (on_event e s)" using d(1) by (rule tally_ok_on_event)
  show ?thesis
  proof (cases e)
    case (Connection c w)
    have ev: "on_event e s =
      s\<lparr>clients := Map_set c w (clients s),
        sendLog := sendLog s @ [(w, Welcome c (candidates s) (getTally s), delivers s w)]\<rparr>"
      by (simp add: Connection on_event_def on_connection_eq)
    show ?thesis
    proof (rule counts_okI)
      show "tally_ok (on_event e s)" by (rule ok')
      have "fst ` set (clients (on_event e s)) = insert c (fst ` set (clients s))"
        by (simp add: ev Map_set_image)
      moreover have "issued used e = c # used" by (simp add: Connection)
      ultimately show "fst ` set (clients (on_event e s)) \<subseteq> set (issued used e)"
        using d(2) by auto
      show "Map_get (votes (on_event e s)) x = Some (Num (confirmed_for x (sendLog (on_event e s))))"
        if "x \<in> set (candidates (on_event e s))" for x
        using that d(3) by (simp add: ev)
      have "issued used e = c # used" by (simp add: Connection)
      then show "confirmed_for x (sendLog (on_event e s)) = 0" if "issued used e = []" for x
        using that by simp
    qed
  next
    case (Message c w data)
    have reg: "Map_get (clients s) c = Some w" using assms(2) by (simp add: Message)
    have "c \<in> fst ` set (clients s)" using Map_get_dom [OF reg] by simp
    then have ne: "used \<noteq> []" using d(2) by auto
    have ev: "on_event e s = snd (on_message c w data s)" by (simp add: Message on_event_def)
    have iss: "issued used e = used" by (simp add: Message)
    from on_message_cases [OF reg, of data]
    consider (err) er where "on_message c w data s =
            (Inr (), s\<lparr>sendLog := sendLog s @ [(w, ErrorMsg er, delivers s w)]\<rparr>)"
      | (req) "on_message c w data s =
            (Inr (), s\<lparr>sendLog := sendLog s @
               [(w, TallyUpdate (votes s) (length (votedClients s)), delivers s w)]\<rparr>)"
      | (acc) k where "c \<notin> set (votedClients s)" "k \<in> set (candidates s)"
          "on_message c w data s =
               (Inr (),
                s\<lparr>votes := Map_set k (js_plus1 (Map_get (votes s) k)) (votes s),
                  votedClients := votedClients s @ [c],
                  sendLog := sendLog s @
                    (w, VoteConfirmed k, delivers s w) #
                    broadcast_calls s
                      (TallyUpdate (Map_set k (js_plus1 (Map_get (votes s) k)) (votes s))
                         (length (votedClients s) + 1))\<rparr>)"
      by blast
    then show ?thesis
    proof cases
      case err
      show ?thesis
      proof (rule counts_okI)
        show "tally_ok (on_event e s)" by (rule ok')
        show "fst ` set (clients (on_event e s)) \<subseteq> set (issued used e)"
          using d(2) by (simp add: ev err iss)
        show "Map_get (votes (on_event e s)) x = Some (Num (confirmed_for x (sendLog (on_event e s))))"
          if "x \<in> set (candidates (on_event e s))" for x
          using that d(3) by (simp add: ev err)
        show "confirmed_for x (sendLog (on_event e s)) = 0" if "issued used e = []" for x
          using that ne by (simp add: iss)
      qed
    next
      case req
      show ?thesis
      proof (rule counts_okI)
        show "tally_ok (on_event e s)" by (rule ok')
        show "fst ` set (clients (on_event e s)) \<subseteq> set (issued used e)"
          using d(2) by (simp add: ev req iss)
        show "Map_get (votes (on_event e s)) x = Some (Num (confirmed_for x (sendLog (on_event e s))))"
          if "x \<in> set (candidates (on_event e s))" for x
          using that d(3) by (simp add: ev req)
        show "confirmed_for x (sendLog (on_event e s)) = 0" if "issued used e = []" for x
          using that ne by (simp add: iss)
      qed
    next
      case acc
      have k: "Map_get (votes s) k = Some (Num (confirmed_for k (sendLog s)))"
        using d(3) acc(2) by simp
      show ?thesis
      proof (rule counts_okI)
        show "tally_ok (on_event e s)" by (rule ok')
        show "fst ` set (clients (on_event e s)) \<subseteq> set (issued used e)"
          using d(2) by (simp add: ev acc(3) iss)
        show "Map_get (votes (on_event e s)) x = Some (Num (confirmed_for x (sendLog (on_event e s))))"
          if "x \<in> set (candidates (on_event e s))" for x
          using that d(3) [of x] k by (simp add: ev acc(3) Map_get_Map_set)
        show "confirmed_for x (sendLog (on_event e s)) = 0" if "issued used e = []" for x
          using that ne by (simp add: iss)
      qed
    qed
  next
    case (Close c)
    have ev: "on_event e s = on_close c s" by (simp add: Close on_event_def)
    show ?thesis
    proof (rule counts_okI)
      show "tally_ok (on_event e s)" by (rule ok')
      have "fst ` set (clients (on_event e s)) = fst ` set (clients s) - {c}"
        by (simp add: ev on_close_def Map_delete_image)
      moreover have "issued used e = used" by (simp add: Close)
      ultimately show "fst ` set (clients (on_event e s)) \<subseteq> set (issued used e)"
        using d(2) by auto
      show "Map_get (votes (on_event e s)) x = Some (Num (confirmed_for x (sendLog (on_event e s))))"
        if "x \<in> set (candidates (on_event e s))" for x
        using that d(3) by (simp add: ev on_close_def)
      have "sendLog (on_event e s) = sendLog s" by (simp add: ev on_close_def)
      moreover have "issued used e = used" by (simp add: Close)
      ultimately show "confirmed_for x (sendLog (on_event e s)) = 0" if "issued used e = []" for x
        using that d(4) by simp
    qed
  next
    case (ServerError b)
    have u: "used = []" using assms(2) by (simp add: ServerError)
    show ?thesis
    proof (cases b)
      case False
      then show ?thesis using assms(1) by (simp add: ServerError on_event_def on_error_def)
    next
      case True
      have "counts_ok [] (setupServer (s\<lparr>port := port s + 1\<rparr>))"
        by (rule counts_ok_setupServer) (use d(4) u in simp)
      then show ?thesis using True u by (simp add: ServerError on_event_def on_error_def)
    qed
  next
    case (Transport w k)
    have ev: "on_event e s = s\<lparr>net := (net s)(w := k)\<rparr>" by (simp add: Transport on_event_def)
    show ?thesis
    proof (rule counts_okI)
      show "tally_ok (on_event e s)" by (rule ok')
      have iss: "issued used e = used" by (simp add: Transport)
      show "fst ` set (clients (on_event e s)) \<subseteq> set (issued used e)"
        using d(2) by (simp add: ev iss)
      show "Map_get (votes (on_event e s)) x = Some (Num (confirmed_for x (sendLog (on_event e s))))"
        if "x \<in> set (candidates (on_event e s))" for x
        using that d(3) by (simp add: ev)
      show "confirmed_for x (sendLog (on_event e s)) = 0" if "issued used e = []" for x
        using that d(4) by (simp add: ev iss)
    qed
  qed
qed

lemma counts_ok_run:
  "counts_ok used s \<Longrightarrow> wf_trace used evs s \<Longrightarrow> \<exists>used'. counts_ok used' (run evs s)"
proof (induction evs arbitrary: used s)
  case Nil
  then show ?case by auto
next
  case (Cons e evs)
  have "counts_ok (issued used e) (on_event e s)"
    using Cons.prems by (simp add: counts_ok_step)
  moreover have "wf_trace (issued used e) evs (on_event e s)"
    using Cons.prems by simp
  ultimately have "\<exists>used'. counts_ok used' (run evs (on_event e s))"
    by (rule Cons.IH)
  then show ?case by simp
qed



lemma two_sessions_votes:
  "votes (run two_sessions_trace (VoteServer 7004 all_open)) =
     [(''Candidate A'', Num 1), (''Candidate B'', Num 0), (''Candidate C'', Num 0)]"
  by code_simp


lemma two_sessions_confirmed:
  "confirmed_for ''Candidate A'' (sendLog (run two_sessions_trace (VoteServer 7004 all_open))) = 1"
  "confirmed_for ''Candidate B'' (sendLog (run two_sessions_trace (VoteServer 7004 all_open))) = 0"
  "confirmed_for ''Candidate C'' (sendLog (run two_sessions_trace (VoteServer 7004 all_open))) = 0"
  by code_simp+

section \<open>The claims\<close>




text \<open>
  C2. For every event sequence the WebSocket library can produce after startup
  (\<open>wf_trace\<close>), the counts of the tally sum to the number of distinct sessions whose
  vote was accepted, and no session is accepted twice. A \<open>close\<close> leaves \<open>getTally\<close> as
  it is, and a \<open>request_tally\<close> of a session still registered after the \<open>close\<close> is
  answered with the tally from before the \<open>close\<close>.
\<close>

theorem tally_sum_counts_accepted_sessions:
  assumes "wf_trace [] evs (VoteServer p env)"
  shows "tally_sum (getTally (run evs (VoteServer p env))) =
           Num (card (set (accepted_sessions evs (VoteServer p env)))) \<and>
         distinct (accepted_sessions evs (VoteServer p env)) \<and>
         getTally (on_close clientId (run evs (VoteServer p env))) =
           getTally (run evs (VoteServer p env)) \<and>
         (Map_get (clients (on_close clientId (run evs (VoteServer p env)))) c2 = Some ws \<longrightarrow>
            (\<exists>n. sendLog (snd (on_message c2 ws (Parsed request_tally_msg)
                              (on_close clientId (run evs (VoteServer p env))))) =
                 sendLog (run evs (VoteServer p env)) @
                   [(ws, TallyUpdate (getTally (run evs (VoteServer p env))) n,
                     delivers (run evs (VoteServer p env)) ws)]))"
proof -
  define s where "s = run evs (VoteServer p env)"
  define acc where "acc = accepted_sessions evs (VoteServer p env)"
  obtain used' where "ledger_ok used' ([] @ acc) s"
    unfolding s_def acc_def
    using ledger_ok_run [OF ledger_ok_VoteServer assms] by blast
  then have l: "ledger_ok used' acc s" by simp
  have d: "distinct acc" using ledger_okD(3) [OF l] .
  have "tally_sum (votes s) = Num (length acc)" using ledger_okD(2) [OF l] .
  then have 1: "tally_sum (getTally s) = Num (card (set acc))"
    using d by (simp add: distinct_card)
  have 3: "getTally (on_close clientId s) = getTally s"
    by (simp add: on_close_def)
  have 4: "\<exists>n. sendLog (snd (on_message c2 ws (Parsed request_tally_msg) (on_close clientId s))) =
                 sendLog s @ [(ws, TallyUpdate (getTally s) n, delivers s ws)]"
    if r: "Map_get (clients (on_close clientId s)) c2 = Some ws"
  proof -
    have "sendLog (snd (on_message c2 ws (Parsed request_tally_msg) (on_close clientId s))) =
        sendLog s @ [(ws, TallyUpdate (getTally s) (Set_size (votedClients (on_close clientId s))),
                      delivers s ws)]"
      unfolding on_message_request_tally [OF r]
      by (simp add: on_close_def delivers_def)
    then show ?thesis ..
  qed
  show ?thesis
    unfolding s_def [symmetric] acc_def [symmetric]
    using 1 d 3 4 by blast
qed

theorem tally_sum_counts_accepted_sessions_witness:
  "wf_trace [] two_sessions_trace (VoteServer 7004 all_open) \<and>
   accepted_sessions two_sessions_trace (VoteServer 7004 all_open) = [''c1''] \<and>
   tally_sum (getTally (run two_sessions_trace (VoteServer 7004 all_open))) = Num 1 \<and>
   Map_get (clients (on_close ''c1'' (run two_sessions_trace (VoteServer 7004 all_open)))) ''c2'' = Some 2 \<and>
   (\<exists>n. sendLog (snd (on_message ''c2'' 2 (Parsed request_tally_msg)
                      (on_close ''c1'' (run two_sessions_trace (VoteServer 7004 all_open))))) =
        sendLog (run two_sessions_trace (VoteServer 7004 all_open)) @
          [(2, TallyUpdate [(''Candidate A'', Num 1), (''Candidate B'', Num 0), (''Candidate C'', Num 0)] n,
            True)])"
proof -
  have w: "wf_trace [] two_sessions_trace (VoteServer 7004 all_open)"
    by (rule two_sessions_wf)
  have a: "accepted_sessions two_sessions_trace (VoteServer 7004 all_open) = [''c1'']"
    by (rule two_sessions_accepted)
  have r: "Map_get (clients (on_close ''c1'' (run two_sessions_trace (VoteServer 7004 all_open)))) ''c2'' = Some 2"
    by code_simp
  have g: "getTally (run two_sessions_trace (VoteServer 7004 all_open)) =
      [(''Candidate A'', Num 1), (''Candidate B'', Num 0), (''Candidate C'', Num 0)]"
    by code_simp
  have d: "delivers (run two_sessions_trace (VoteServer 7004 all_open)) 2"
    by code_simp
  show ?thesis
    using tally_sum_counts_accepted_sessions [OF w, of "''c1''" "''c2''" 2] w a r
    unfolding g a using d by simp
qed

text \<open>
  C3. A rejected vote of a registered session is free of side effects. When the session
  is already in \<open>votedClients\<close>, and when it is not but the candidate is a string outside
  the candidate list, \<open>handleVote\<close> returns normally and the state differs from the old
  one in \<open>sendLog\<close> only, by a single call: the error, to the sender's socket. So no
  count changes, \<open>votedClients\<close> is the same and nothing is broadcast.
\<close>

theorem rejected_vote_no_side_effect:
  assumes "Map_get (clients s) clientId = Some ws"
  shows "(Set_has (votedClients s) clientId \<longrightarrow>
            handleVote clientId m s =
              (Inr (), s\<lparr>sendLog := sendLog s @
                 [(ws, ErrorMsg ''You have already voted!'', delivers s ws)]\<rparr>)) \<and>
         (\<not> Set_has (votedClients s) clientId \<and>
          js_prop m ''candidate'' = Inr (Some (JString c)) \<and> c \<notin> set (candidates s) \<longrightarrow>
            handleVote clientId m s =
              (Inr (), s\<lparr>sendLog := sendLog s @
                 [(ws, ErrorMsg ''Invalid candidate selected!'', delivers s ws)]\<rparr>))"
  using assms
  by (simp add: handleVote_already handleVote_invalid send_stmt_Some Set_has_def)

theorem rejected_vote_no_side_effect_witness:
  "Map_get (clients one_voted) ''c1'' = Some 1 \<and> Set_has (votedClients one_voted) ''c1'' \<and>
   handleVote ''c1'' (vote_msg ''Candidate A'') one_voted =
     (Inr (), one_voted\<lparr>sendLog := sendLog one_voted @
        [(1, ErrorMsg ''You have already voted!'', True)]\<rparr>) \<and>
   Map_get (clients one_client) ''c1'' = Some 1 \<and> \<not> Set_has (votedClients one_client) ''c1'' \<and>
   js_prop (vote_msg ''Candidate Z'') ''candidate'' = Inr (Some (JString ''Candidate Z'')) \<and>
   ''Candidate Z'' \<notin> set (candidates one_client) \<and>
   handleVote ''c1'' (vote_msg ''Candidate Z'') one_client =
     (Inr (), one_client\<lparr>sendLog := sendLog one_client @
        [(1, ErrorMsg ''Invalid candidate selected!'', True)]\<rparr>)"
proof -
  have a: "Map_get (clients one_voted) ''c1'' = Some 1"
    by (simp add: one_voted_clients Map_get_def)
  have b: "Map_get (clients one_client) ''c1'' = Some 1"
    by (simp add: one_client_clients Map_get_def)
  have v: "Set_has (votedClients one_voted) ''c1''"
    by (simp add: one_voted_votedClients Set_has_def)
  have n: "\<not> Set_has (votedClients one_client) ''c1''"
    by (simp add: one_client_votedClients Set_has_def)
  have z: "''Candidate Z'' \<notin> set (candidates one_client)"
    by (simp add: one_client_candidates)
  show ?thesis
    using rejected_vote_no_side_effect [OF a, of "vote_msg ''Candidate A''" "''Candidate A''"]
      rejected_vote_no_side_effect [OF b, of "vote_msg ''Candidate Z''" "''Candidate Z''"]
      a b v n z one_voted_delivers [of 1] one_client_delivers [of 1]
    by (simp add: js_prop_vote_msg)
qed

text \<open>
  C4. In a state reached from startup, for a registered session that has not voted and a
  candidate of the list, \<open>handleVote\<close> returns normally; the candidate's count, a number
  \<open>n\<close>, becomes \<open>n + 1\<close> and no other entry of the tally changes; the session is added to
  \<open>votedClients\<close> and no other session's membership changes; the calls of
  \<open>sendToClient\<close> are \<open>vote_confirmed\<close> to the voter's socket, followed by one
  \<open>tally_update\<close> with the new tally and the new size of \<open>votedClients\<close> for every
  registered session, in the registry's order (each delivered iff its socket is open and
  \<open>send\<close> returns); nothing else changes.
\<close>

theorem accepted_vote_effect:
  assumes "s = run evs (VoteServer p env)"
    and "Map_get (clients s) clientId = Some ws"
    and "\<not> Set_has (votedClients s) clientId"
    and "js_prop m ''candidate'' = Inr (Some (JString k))"
    and "k \<in> set (candidates s)"
  shows "\<exists>n. Map_get (votes s) k = Some (Num n) \<and>
           handleVote clientId m s =
             (Inr (),
              s\<lparr>votes := Map_set k (Num (n + 1)) (votes s),
                votedClients := votedClients s @ [clientId],
                sendLog := sendLog s @
                  (ws, VoteConfirmed k, delivers s ws) #
                  broadcast_calls s
                    (TallyUpdate (Map_set k (Num (n + 1)) (votes s)) (Set_size (votedClients s) + 1))\<rparr>) \<and>
           Map_get (Map_set k (Num (n + 1)) (votes s)) k = Some (Num (n + 1)) \<and>
           (\<forall>k'. k' \<noteq> k \<longrightarrow> Map_get (Map_set k (Num (n + 1)) (votes s)) k' = Map_get (votes s) k') \<and>
           map fst (Map_set k (Num (n + 1)) (votes s)) = map fst (votes s) \<and>
           (\<forall>c'. c' \<noteq> clientId \<longrightarrow>
              Set_has (votedClients s @ [clientId]) c' = Set_has (votedClients s) c')"
proof -
  have ok: "tally_ok s"
    unfolding assms(1) by (rule tally_ok_run) (rule tally_ok_VoteServer)
  have keys: "k \<in> set (map fst (votes s))" using ok assms(5) by (simp add: tally_ok_def)
  have nums: "\<forall>v \<in> set (map snd (votes s)). v \<noteq> NaN" using ok by (simp add: tally_ok_def)
  obtain n where n: "Map_get (votes s) k = Some (Num n)"
    using Map_get_Num [OF keys nums] by blast
  have nv: "clientId \<notin> set (votedClients s)" using assms(3) by (simp add: Set_has_def)
  have "handleVote clientId m s =
             (Inr (),
              s\<lparr>votes := Map_set k (Num (n + 1)) (votes s),
                votedClients := votedClients s @ [clientId],
                sendLog := sendLog s @
                  (ws, VoteConfirmed k, delivers s ws) #
                  broadcast_calls s
                    (TallyUpdate (Map_set k (Num (n + 1)) (votes s)) (Set_size (votedClients s) + 1))\<rparr>)"
    using handleVote_record [OF nv assms(4) assms(5) assms(2)] n by (simp add: Set_size_def)
  then show ?thesis
    using n keys by (simp add: Map_get_Map_set Map_set_keys Set_has_def)
qed

theorem accepted_vote_effect_witness:
  "one_client = run [Connection ''c1'' 1] (VoteServer 7004 all_open) \<and>
   Map_get (clients one_client) ''c1'' = Some 1 \<and>
   \<not> Set_has (votedClients one_client) ''c1'' \<and>
   js_prop (vote_msg ''Candidate B'') ''candidate'' = Inr (Some (JString ''Candidate B'')) \<and>
   ''Candidate B'' \<in> set (candidates one_client) \<and>
   handleVote ''c1'' (vote_msg ''Candidate B'') one_client =
     (Inr (),
      one_client\<lparr>votes := [(''Candidate A'', Num 0), (''Candidate B'', Num 1), (''Candidate C'', Num 0)],
        votedClients := [''c1''],
        sendLog := sendLog one_client @
          [(1, VoteConfirmed ''Candidate B'', True),
           (1, TallyUpdate [(''Candidate A'', Num 0), (''Candidate B'', Num 1), (''Candidate C'', Num 0)] 1,
            True)]\<rparr>)"
proof -
  have r: "one_client = run [Connection ''c1'' 1] (VoteServer 7004 all_open)"
    by (rule one_client_def)
  have b: "Map_get (clients one_client) ''c1'' = Some 1"
    by (simp add: one_client_clients Map_get_def)
  have nv: "\<not> Set_has (votedClients one_client) ''c1''"
    by (simp add: one_client_votedClients Set_has_def)
  have p: "js_prop (vote_msg ''Candidate B'') ''candidate'' = Inr (Some (JString ''Candidate B''))"
    by (simp add: js_prop_vote_msg)
  have k: "''Candidate B'' \<in> set (candidates one_client)"
    by (simp add: one_client_candidates)
  from accepted_vote_effect [OF r b nv p k] obtain n where
    n: "Map_get (votes one_client) ''Candidate B'' = Some (Num n)" and
    h: "handleVote ''c1'' (vote_msg ''Candidate B'') one_client =
             (Inr (),
              one_client\<lparr>votes := Map_set ''Candidate B'' (Num (n + 1)) (votes one_client),
                votedClients := votedClients one_client @ [''c1''],
                sendLog := sendLog one_client @
                  (1, VoteConfirmed ''Candidate B'', delivers one_client 1) #
                  broadcast_calls one_client
                    (TallyUpdate (Map_set ''Candidate B'' (Num (n + 1)) (votes one_client))
                       (Set_size (votedClients one_client) + 1))\<rparr>)"
    by blast
  have n0: "n = 0"
    using n by (simp add: one_client_votes Map_get_def)
  have h': "handleVote ''c1'' (vote_msg ''Candidate B'') one_client =
     (Inr (),
      one_client\<lparr>votes := [(''Candidate A'', Num 0), (''Candidate B'', Num 1), (''Candidate C'', Num 0)],
        votedClients := [''c1''],
        sendLog := sendLog one_client @
          [(1, VoteConfirmed ''Candidate B'', True),
           (1, TallyUpdate [(''Candidate A'', Num 0), (''Candidate B'', Num 1), (''Candidate C'', Num 0)] 1,
            True)]\<rparr>)"
    unfolding h n0
    by (simp add: one_client_votes one_client_votedClients one_client_clients
        one_client_delivers broadcast_calls_def Set_size_def)
  show ?thesis
    using r b nv p k h' by (intro conjI)
qed

text \<open>
  C5, as the claim states it, fails: \<open>handleVote\<close> has no message of its own for a
  \<open>vote\<close> without a string candidate. Such a vote is answered exactly like a vote for an
  unknown candidate, and like any other vote when the session has already voted.
\<close>

theorem vote_without_candidate_counterexample:
  "js_prop vote_no_candidate ''candidate'' = Inr None \<and>
   ''Candidate Z'' \<notin> set (candidates one_client) \<and>
   handleVote ''c1'' vote_no_candidate one_client =
     handleVote ''c1'' (vote_msg ''Candidate Z'') one_client \<and>
   sendLog (snd (handleVote ''c1'' vote_no_candidate one_client)) =
     sendLog one_client @ [(1, ErrorMsg ''Invalid candidate selected!'', True)] \<and>
   handleVote ''c1'' vote_no_candidate one_voted =
     handleVote ''c1'' (vote_msg ''Candidate A'') one_voted \<and>
   sendLog (snd (handleVote ''c1'' vote_no_candidate one_voted)) =
     sendLog one_voted @ [(1, ErrorMsg ''You have already voted!'', True)]"
proof -
  have a: "Map_get (clients one_voted) ''c1'' = Some 1"
    by (simp add: one_voted_clients Map_get_def)
  have b: "Map_get (clients one_client) ''c1'' = Some 1"
    by (simp add: one_client_clients Map_get_def)
  have p: "js_prop vote_no_candidate ''candidate'' = Inr None"
    by (simp add: vote_no_candidate_def)
  have z: "''Candidate Z'' \<notin> set (candidates one_client)"
    by (simp add: one_client_candidates)
  have 1: "handleVote ''c1'' vote_no_candidate one_client =
      (Inr (), one_client\<lparr>sendLog := sendLog one_client @
        [(1, ErrorMsg ''Invalid candidate selected!'', True)]\<rparr>)"
    using handleVote_no_string [OF b p] one_client_delivers [of 1]
    by (simp add: one_client_votedClients Set_has_def)
  have 2: "handleVote ''c1'' (vote_msg ''Candidate Z'') one_client =
      (Inr (), one_client\<lparr>sendLog := sendLog one_client @
        [(1, ErrorMsg ''Invalid candidate selected!'', True)]\<rparr>)"
    using handleVote_invalid [of "''c1''" one_client "vote_msg ''Candidate Z''" "Some (JString ''Candidate Z'')"]
      b z one_client_delivers [of 1]
    by (simp add: one_client_votedClients js_prop_vote_msg send_stmt_Some)
  have 3: "handleVote ''c1'' vote_no_candidate one_voted =
      (Inr (), one_voted\<lparr>sendLog := sendLog one_voted @
        [(1, ErrorMsg ''You have already voted!'', True)]\<rparr>)"
    using handleVote_no_string [OF a p] one_voted_delivers [of 1]
    by (simp add: one_voted_votedClients Set_has_def)
  have 4: "handleVote ''c1'' (vote_msg ''Candidate A'') one_voted =
      (Inr (), one_voted\<lparr>sendLog := sendLog one_voted @
        [(1, ErrorMsg ''You have already voted!'', True)]\<rparr>)"
    using handleVote_already [of "''c1''" one_voted "vote_msg ''Candidate A''"]
      a one_voted_delivers [of 1]
    by (simp add: one_voted_votedClients send_stmt_Some)
  show ?thesis
    using p z 1 2 3 4 by simp
qed

text \<open>
  C5, amended. For a registered session and a \<open>vote\<close> whose candidate field is absent or
  not a string, \<open>handleVote\<close> returns normally and changes nothing but \<open>sendLog\<close>, by one
  error to the sender's socket: ``You have already voted!'' when the session is in
  \<open>votedClients\<close>, and otherwise ``Invalid candidate selected!'', the reply to a vote for
  an unknown candidate.
\<close>

theorem vote_without_string_candidate_rejected:
  assumes "Map_get (clients s) clientId = Some ws"
    and "js_prop m ''candidate'' = Inr v"
    and "\<forall>c. v \<noteq> Some (JString c)"
  shows "handleVote clientId m s =
           (Inr (), s\<lparr>sendLog := sendLog s @
              [(ws, ErrorMsg (if Set_has (votedClients s) clientId
                              then ''You have already voted!''
                              else ''Invalid candidate selected!''), delivers s ws)]\<rparr>)"
  using assms by (rule handleVote_no_string)

theorem vote_without_string_candidate_rejected_witness:
  "Map_get (clients one_client) ''c1'' = Some 1 \<and>
   js_prop (JObject [(''type'', JString ''vote''), (''candidate'', JNumber 2)]) ''candidate'' = Inr (Some (JNumber 2)) \<and>
   handleVote ''c1'' (JObject [(''type'', JString ''vote''), (''candidate'', JNumber 2)]) one_client =
     (Inr (), one_client\<lparr>sendLog := sendLog one_client @
        [(1, ErrorMsg ''Invalid candidate selected!'', True)]\<rparr>)"
proof -
  have b: "Map_get (clients one_client) ''c1'' = Some 1"
    by (simp add: one_client_clients Map_get_def)
  have p: "js_prop (JObject [(''type'', JString ''vote''), (''candidate'', JNumber 2)]) ''candidate'' = Inr (Some (JNumber 2))"
    by simp
  have q: "\<forall>c. Some (JNumber 2) \<noteq> Some (JString c)"
    by simp
  show ?thesis
    using vote_without_string_candidate_rejected [OF b p q] b p one_client_delivers [of 1]
    by (simp add: one_client_votedClients Set_has_def)
qed

text \<open>
  C6, as the claim states it, fails: \<open>initializeCandidates\<close> validates nothing and has no
  error to raise. On an empty list it returns normally with an empty tally; on a list
  that repeats a candidate it returns normally with one entry for that candidate.
\<close>

theorem initialize_no_ConfigError_counterexample:
  "initializeCandidates (blank []) = (Inr (), blank []) \<and>
   initializeCandidates (blank [''A'', ''A'']) =
     (Inr (), (blank [''A'', ''A''])\<lparr>votes := [(''A'', Num 0)]\<rparr>)"
  by (simp add: initializeCandidates_def blank_def)

text \<open>
  C6, amended. \<open>initializeCandidates\<close> sets the count 0 for every candidate of the list,
  leaves the entries of other keys and every other field as they are, and always returns
  normally, whatever the list; the server starts with the fixed list of three
  candidates, each with count 0, in the list's order.
\<close>

theorem initializeCandidates_zeroes:
  "fst (initializeCandidates s) = Inr () \<and>
   (\<forall>c \<in> set (candidates s). Map_get (votes (snd (initializeCandidates s))) c = Some (Num 0)) \<and>
   (\<forall>c. c \<notin> set (candidates s) \<longrightarrow>
      Map_get (votes (snd (initializeCandidates s))) c = Map_get (votes s) c) \<and>
   snd (initializeCandidates s) = s\<lparr>votes := votes (snd (initializeCandidates s))\<rparr> \<and>
   candidates (VoteServer p env) = [''Candidate A'', ''Candidate B'', ''Candidate C''] \<and>
   getTally (VoteServer p env) =
     [(''Candidate A'', Num 0), (''Candidate B'', Num 0), (''Candidate C'', Num 0)]"
  by (simp add: initializeCandidates_def Map_get_fold_zero VoteServer_def setupServer_def)

theorem initializeCandidates_zeroes_witness:
  "''Y'' \<in> set (candidates (blank [''X'', ''Y''])) \<and>
   Map_get (votes (snd (initializeCandidates (blank [''X'', ''Y''])))) ''Y'' = Some (Num 0) \<and>
   ''Z'' \<notin> set (candidates (blank [''X'', ''Y''])) \<and>
   Map_get (votes (snd (initializeCandidates (blank [''X'', ''Y''])))) ''Z'' = None \<and>
   fst (initializeCandidates (blank [''X'', ''Y''])) = Inr ()"
proof -
  have y: "''Y'' \<in> set (candidates (blank [''X'', ''Y'']))"
    by (simp add: blank_def)
  have z: "''Z'' \<notin> set (candidates (blank [''X'', ''Y'']))"
    by (simp add: blank_def)
  have e: "Map_get (votes (blank [''X'', ''Y''])) ''Z'' = None"
    by (simp add: blank_def Map_get_def)
  show ?thesis
    using initializeCandidates_zeroes [of "blank [''X'', ''Y'']" 7004 all_open] y z e
    by auto
qed

text \<open>
  C7. For a registered session and a frame that is not one of the two inbound shapes, the
  \<open>message\<close> handler returns normally, and the state differs from the old one in
  \<open>sendLog\<close> only, by a single call: an error message to the socket of the originating
  session. The message is ``Invalid message format'' when the text does not parse, when
  it parses to \<open>null\<close>, and when \<open>message.type\<close> cannot be converted to a string;
  for a \<open>vote\<close> without a string candidate it is ``You have already voted!'' or
  ``Invalid candidate selected!''; in every other case it is ``Unknown message type''.
\<close>

theorem undecodable_frame_error_reply:
  assumes "Map_get (clients s) clientId = Some ws"
    and "\<not> known_shape data"
  shows "on_message clientId ws data s =
           (Inr (),
            s\<lparr>sendLog := sendLog s @
               [(ws,
                 ErrorMsg
                   (case JSON_parse data of
                      Inl e \<Rightarrow> ''Invalid message format''
                    | Inr message \<Rightarrow>
                        (case js_prop message ''type'' of
                           Inl e \<Rightarrow> ''Invalid message format''
                         | Inr t \<Rightarrow>
                             if interpolation_throws t then ''Invalid message format''
                             else if t = Some (JString ''vote'') then
                               (if Set_has (votedClients s) clientId
                                then ''You have already voted!''
                                else ''Invalid candidate selected!'')
                             else ''Unknown message type'')),
                 delivers s ws)]\<rparr>)"
  using assms by (rule on_message_undecodable)

theorem undecodable_frame_error_reply_witness:
  "Map_get (clients one_client) ''c1'' = Some 1 \<and> \<not> known_shape Unparsable \<and>
   \<not> known_shape (Parsed JNull) \<and>
   \<not> known_shape (Parsed (JObject [(''type'', JObject [(''toString'', JNumber 1)])])) \<and>
   \<not> known_shape (Parsed (JObject [(''type'', JString ''ping'')])) \<and>
   on_message ''c1'' 1 Unparsable one_client =
     (Inr (), one_client\<lparr>sendLog := sendLog one_client @
        [(1, ErrorMsg ''Invalid message format'', True)]\<rparr>) \<and>
   on_message ''c1'' 1 (Parsed JNull) one_client =
     (Inr (), one_client\<lparr>sendLog := sendLog one_client @
        [(1, ErrorMsg ''Invalid message format'', True)]\<rparr>) \<and>
   on_message ''c1'' 1 (Parsed (JObject [(''type'', JObject [(''toString'', JNumber 1)])])) one_client =
     (Inr (), one_client\<lparr>sendLog := sendLog one_client @
        [(1, ErrorMsg ''Invalid message format'', True)]\<rparr>) \<and>
   on_message ''c1'' 1 (Parsed (JObject [(''type'', JString ''ping'')])) one_client =
     (Inr (), one_client\<lparr>sendLog := sendLog one_client @
        [(1, ErrorMsg ''Unknown message type'', True)]\<rparr>)"
proof -
  have b: "Map_get (clients one_client) ''c1'' = Some 1"
    by (simp add: one_client_clients Map_get_def)
  have u: "\<not> known_shape Unparsable"
    by (simp add: known_shape_def JSON_parse_def)
  have n: "\<not> known_shape (Parsed JNull)"
    by (simp add: known_shape_def JSON_parse_def)
  have o: "\<not> known_shape (Parsed (JObject [(''type'', JObject [(''toString'', JNumber 1)])]))"
    by (simp add: known_shape_def JSON_parse_def)
  have p: "\<not> known_shape (Parsed (JObject [(''type'', JString ''ping'')]))"
    by (simp add: known_shape_def JSON_parse_def)
  show ?thesis
    using undecodable_frame_error_reply [OF b u] undecodable_frame_error_reply [OF b n]
      undecodable_frame_error_reply [OF b o] undecodable_frame_error_reply [OF b p]
      b u n o p one_client_delivers [of 1]
    by (simp add: JSON_parse_def interpolation_throws_def)
qed

text \<open>
  C8. After any sequence of events from startup, \<open>getTally\<close> is the fixed candidate
  list, in its order, each candidate paired with the count the tally holds for it: one
  entry per configured candidate, none for anything else, and every count a number. In
  an event sequence the WebSocket library can produce, that count is the number of
  \<open>vote_confirmed\<close> messages for the candidate among the logged calls.
\<close>

theorem getTally_keeps_candidate_order:
  "getTally (run evs (VoteServer p env)) =
     map (\<lambda>candidate.
            (candidate,
             case Map_get (votes (run evs (VoteServer p env))) candidate of
               Some n \<Rightarrow> n | None \<Rightarrow> NaN))
         (candidates (run evs (VoteServer p env))) \<and>
   candidates (run evs (VoteServer p env)) = [''Candidate A'', ''Candidate B'', ''Candidate C''] \<and>
   NaN \<notin> set (map snd (getTally (run evs (VoteServer p env)))) \<and>
   (wf_trace [] evs (VoteServer p env) \<longrightarrow>
      getTally (run evs (VoteServer p env)) =
        map (\<lambda>candidate.
               (candidate, Num (confirmed_for candidate (sendLog (run evs (VoteServer p env))))))
            (candidates (run evs (VoteServer p env))))"
proof -
  define s where "s = run evs (VoteServer p env)"
  have ok: "tally_ok s"
    unfolding s_def by (rule tally_ok_run) (rule tally_ok_VoteServer)
  have e: "votes s = map (\<lambda>c. (c, case Map_get (votes s) c of Some n \<Rightarrow> n | None \<Rightarrow> NaN)) (candidates s)"
    using ok by (rule tally_ok_entries)
  have 1: "getTally s = map (\<lambda>c. (c, case Map_get (votes s) c of Some n \<Rightarrow> n | None \<Rightarrow> NaN)) (candidates s)"
    unfolding getTally_votes by (rule e)
  have 2: "candidates s = [''Candidate A'', ''Candidate B'', ''Candidate C'']"
    using ok unfolding tally_ok_def by (rule conjunct1)
  have "\<forall>v \<in> set (map snd (votes s)). v \<noteq> NaN"
    using ok unfolding tally_ok_def by (rule conjunct2 [OF conjunct2])
  then have 3: "NaN \<notin> set (map snd (getTally s))"
    unfolding getTally_votes by blast
  have 4: "getTally s = map (\<lambda>c. (c, Num (confirmed_for c (sendLog s)))) (candidates s)"
    if w: "wf_trace [] evs (VoteServer p env)"
  proof -
    obtain used' where co: "counts_ok used' s"
      unfolding s_def using counts_ok_run [OF counts_ok_VoteServer w] by blast
    have m: "map (\<lambda>c. (c, case Map_get (votes s) c of Some n \<Rightarrow> n | None \<Rightarrow> NaN)) (candidates s) =
          map (\<lambda>c. (c, Num (confirmed_for c (sendLog s)))) (candidates s)"
      by (rule map_cong) (simp_all add: counts_okD(3) [OF co])
    show ?thesis by (rule trans [OF 1 m])
  qed
  show ?thesis
    unfolding s_def [symmetric] using 1 2 3 4 by blast
qed

theorem getTally_keeps_candidate_order_witness:
  "wf_trace [] two_sessions_trace (VoteServer 7004 all_open) \<and>
   getTally (run two_sessions_trace (VoteServer 7004 all_open)) =
     [(''Candidate A'', Num 1), (''Candidate B'', Num 0), (''Candidate C'', Num 0)] \<and>
   confirmed_for ''Candidate A'' (sendLog (run two_sessions_trace (VoteServer 7004 all_open))) = 1"
proof -
  have w: "wf_trace [] two_sessions_trace (VoteServer 7004 all_open)"
    by (rule two_sessions_wf)
  from getTally_keeps_candidate_order [of two_sessions_trace 7004 all_open]
  have c: "candidates (run two_sessions_trace (VoteServer 7004 all_open)) =
      [''Candidate A'', ''Candidate B'', ''Candidate C'']"
    and g: "getTally (run two_sessions_trace (VoteServer 7004 all_open)) =
        map (\<lambda>candidate.
               (candidate, Num (confirmed_for candidate (sendLog (run two_sessions_trace (VoteServer 7004 all_open))))))
            (candidates (run two_sessions_trace (VoteServer 7004 all_open)))"
    using w by simp_all
  show ?thesis
    using w g unfolding c by (simp add: two_sessions_confirmed)
qed

text \<open>
  C9. For a registered session, a \<open>request_tally\<close> frame makes exactly one call of
  \<open>sendToClient\<close>: the current tally and the size of \<open>votedClients\<close>, to the
  requester's socket (delivered iff that socket is open and \<open>send\<close> returns). No other
  field changes and nothing is broadcast, so a second request, with nothing in between,
  gets the same snapshot.
\<close>

theorem request_tally_replies_to_requester_only:
  assumes "Map_get (clients s) clientId = Some ws"
    and "js_prop m ''type'' = Inr (Some (JString ''request_tally''))"
  shows "on_message clientId ws (Parsed m) s =
           (Inr (), s\<lparr>sendLog := sendLog s @
              [(ws, TallyUpdate (getTally s) (Set_size (votedClients s)), delivers s ws)]\<rparr>) \<and>
         snd (on_message clientId ws (Parsed m) (snd (on_message clientId ws (Parsed m) s))) =
           s\<lparr>sendLog := sendLog s @
              [(ws, TallyUpdate (getTally s) (Set_size (votedClients s)), delivers s ws),
               (ws, TallyUpdate (getTally s) (Set_size (votedClients s)), delivers s ws)]\<rparr>"
  using assms
  by (simp add: on_message_def JSON_parse_def handleMessage_def sendTallyToClient_def
      sendToClient_Some)

theorem request_tally_replies_to_requester_only_witness:
  "Map_get (clients one_voted) ''c1'' = Some 1 \<and>
   js_prop request_tally_msg ''type'' = Inr (Some (JString ''request_tally'')) \<and>
   on_message ''c1'' 1 (Parsed request_tally_msg) one_voted =
     (Inr (), one_voted\<lparr>sendLog := sendLog one_voted @
        [(1, TallyUpdate [(''Candidate A'', Num 0), (''Candidate B'', Num 1), (''Candidate C'', Num 0)] 1,
          True)]\<rparr>)"
proof -
  have c: "Map_get (clients one_voted) ''c1'' = Some 1"
    by (simp add: one_voted_eq one_client_clients Map_get_def)
  have t: "js_prop request_tally_msg ''type'' = Inr (Some (JString ''request_tally''))"
    by (simp add: request_tally_msg_def)
  have g: "getTally one_voted = [(''Candidate A'', Num 0), (''Candidate B'', Num 1), (''Candidate C'', Num 0)]"
    by (simp add: one_voted_eq)
  have n: "Set_size (votedClients one_voted) = 1"
    by (simp add: one_voted_eq Set_size_def)
  have d: "delivers one_voted 1"
    using one_client_delivers [of 1] by (simp add: one_voted_eq delivers_def)
  show ?thesis
    using request_tally_replies_to_requester_only [OF c t] c t g n d by simp
qed

text \<open>
  C10. For a session identifier that is not in the client registry, \<open>request_tally\<close>
  sends nothing, raises nothing and leaves the whole state as it was: in
  \<open>sendTallyToClient\<close> itself, and through the dispatch of \<open>handleMessage\<close>.
\<close>

theorem request_tally_unregistered_noop:
  assumes "Map_get (clients s) clientId = None"
  shows "sendTallyToClient clientId s = (Inr (), s) \<and>
         (js_prop m ''type'' = Inr (Some (JString ''request_tally'')) \<longrightarrow>
            handleMessage clientId m s = (Inr (), s))"
  using assms by (simp add: sendTallyToClient_def handleMessage_def)

theorem request_tally_unregistered_noop_witness:
  "Map_get (clients one_client) ''c9'' = None \<and>
   sendTallyToClient ''c9'' one_client = (Inr (), one_client) \<and>
   handleMessage ''c9'' request_tally_msg one_client = (Inr (), one_client)"
proof -
  have h: "Map_get (clients one_client) ''c9'' = None"
    by (simp add: one_client_clients Map_get_def)
  have t: "js_prop request_tally_msg ''type'' = Inr (Some (JString ''request_tally''))"
    by (simp add: request_tally_msg_def)
  show ?thesis
    using request_tally_unregistered_noop [OF h, of request_tally_msg] h t by simp
qed

end
